theory Spec2Isabelle
  imports Main
begin

unbundle bit_operations_syntax

text \<open>
  A model of \<^verbatim>\<open>Modules/_ctypes/dlfcn_aix.c\<close>: the wrappers \<^verbatim>\<open>ctypes_dlopen\<close>,
  \<^verbatim>\<open>ctypes_dlclose\<close> and \<^verbatim>\<open>ctypes_dlsym\<close> that let a caller open several members of
  one AIX archive, \<^verbatim>\<open>filename(member,member,...)\<close>, behind a single handle. The native
  loader and the allocator are parameters; every function threads a world that holds
  \<^verbatim>\<open>errno\<close>, the native state, the wrapper objects and the record of the native calls.
\<close>

section \<open>Pointers, C strings and the platform\<close>

text \<open>
  The three reserved scope values of the platform's \<^verbatim>\<open>dlfcn.h\<close>. They are pointer
  constants that are neither null nor the address of any object; the code only ever
  compares a pointer against them.
\<close>

datatype sentinel = RTLD_DEFAULT | RTLD_MYSELF | RTLD_NEXT

text \<open>
  A C pointer: null, one of the reserved values, or a pointer to something. A
  \<^verbatim>\<open>const char *\<close> is a \<open>string cptr\<close> (the characters before the terminating NUL),
  a \<^verbatim>\<open>void *\<close> handle is an \<open>addr cptr\<close>.
\<close>

datatype 'a cptr = Null | Sentinel sentinel | Ptr 'a

type_synonym addr = nat
type_synonym handle = "addr cptr"

definition NUL :: char where
  "NUL = CHR 0x00"

definition EINVAL :: int where
  \<comment> \<open>the value in AIX's \<^verbatim>\<open>errno.h\<close>; the code relies only on its being nonzero\<close>
  "EINVAL = 22"

definition strlen :: "string \<Rightarrow> nat" where
  "strlen s = length s"

text \<open>
  \<^verbatim>\<open>strchr\<close> and \<^verbatim>\<open>strrchr\<close> return a pointer into the string or NULL; here the
  offset of the first (last) occurrence, or \<open>None\<close>.
\<close>

fun strchr :: "string \<Rightarrow> char \<Rightarrow> nat option" where
  "strchr [] c = None"
| "strchr (x # xs) c = (if x = c then Some 0 else map_option Suc (strchr xs c))"

fun strrchr :: "string \<Rightarrow> char \<Rightarrow> nat option" where
  "strrchr [] c = None"
| "strrchr (x # xs) c =
     (case strrchr xs c of
        Some i \<Rightarrow> Some (Suc i)
      | None \<Rightarrow> if x = c then Some 0 else None)"

text \<open>
  A character buffer is the list of its bytes, terminator included. Reading it as a
  C string stops at the first NUL; a buffer without one is read past its end.
\<close>

definition c_str :: "char list \<Rightarrow> string option" where
  "c_str buf = (if NUL \<in> set buf then Some (takeWhile (\<lambda>c. c \<noteq> NUL) buf) else None)"

definition poke :: "char list \<Rightarrow> nat \<Rightarrow> char list \<Rightarrow> char list option" where
  \<comment> \<open>write \<open>bytes\<close> at offset \<open>off\<close>; writing past the end of the buffer is undefined\<close>
  "poke buf off bytes =
     (if off + length bytes \<le> length buf
      then Some (take off buf @ bytes @ drop (off + length bytes) buf)
      else None)"

definition strncpy :: "char list \<Rightarrow> nat \<Rightarrow> string \<Rightarrow> nat \<Rightarrow> char list option" where
  \<comment> \<open>exactly \<open>n\<close> bytes are written: the source's characters, then NUL padding\<close>
  "strncpy buf off src n = poke buf off (take n src @ replicate (n - length src) NUL)"

definition strcpy :: "char list \<Rightarrow> nat \<Rightarrow> string \<Rightarrow> char list option" where
  "strcpy buf off src = poke buf off (src @ [NUL])"

text \<open>
  The wrapper objects of \<^verbatim>\<open>dlfcn_aix.c\<close>. The \<^verbatim>\<open>loader\<close> field, which points to one of
  the two static function tables, is the constructor. The slots of
  \<^verbatim>\<open>MultipleObjects.dlhandles\<close> are listed up to the allocated size; a slot that was
  never written holds \<open>None\<close>.
\<close>

datatype object =
    SingleObject handle
  | MultipleObjects "handle option list"

text \<open>
  Every call of a native primitive is recorded with its arguments and its result; for
  the native lookup the result is the address together with the value of \<^verbatim>\<open>errno\<close>
  when it returned, the error indicator that \<^verbatim>\<open>multiple_sym\<close> reads.
\<close>

datatype event =
    DlOpen "string cptr" int handle
  | DlClose handle int
  | DlSym handle string handle int
  | Malloc nat "addr option"
  | Free addr

record 'o world =
  errno :: int
  linker :: 'o
  objects :: "addr \<rightharpoonup> object"
  trace :: "event list"

text \<open>
  The native primitives are parameters. Each one reads and updates the state of the
  operating system's loader and allocator, and says what it stored to \<^verbatim>\<open>errno\<close>:
  \<open>None\<close> when it left \<^verbatim>\<open>errno\<close> alone, \<open>Some e\<close> when it stored \<open>e\<close>, which may be 0.
  \<open>RTLD_MEMBER\<close> and the size of a pointer come from the platform's headers.
\<close>

record 'o platform =
  dlopen_n :: "string cptr \<Rightarrow> int \<Rightarrow> 'o \<Rightarrow> handle \<times> int option \<times> 'o"
  dlclose_n :: "handle \<Rightarrow> 'o \<Rightarrow> int \<times> int option \<times> 'o"
  dlsym_n :: "handle \<Rightarrow> string \<Rightarrow> 'o \<Rightarrow> handle \<times> int option \<times> 'o"
  malloc_n :: "nat \<Rightarrow> 'o \<Rightarrow> addr option \<times> int option \<times> 'o"
  free_n :: "addr \<Rightarrow> 'o \<Rightarrow> 'o"
  RTLD_MEMBER :: int
  sizeof_ptr :: nat

fun errno_after :: "int option \<Rightarrow> int \<Rightarrow> int" where
  \<comment> \<open>\<^verbatim>\<open>errno\<close> after a native call that reported \<open>e\<close>, when it was \<open>old\<close> before\<close>
  "errno_after None old = old"
| "errno_after (Some x) old = x"

definition native :: "'o world \<Rightarrow> event \<Rightarrow> int option \<Rightarrow> 'o \<Rightarrow> 'o world" where
  \<comment> \<open>the world after a native call: the call is recorded, \<^verbatim>\<open>errno\<close> and the native
      state are as the call left them\<close>
  "native w ev e s =
     w\<lparr>errno := errno_after e (errno w), linker := s, trace := trace w @ [ev]\<rparr>"

definition dlopen :: "'o platform \<Rightarrow> string cptr \<Rightarrow> int \<Rightarrow> 'o world \<Rightarrow> handle \<times> 'o world" where
  "dlopen P path mode w =
     (case dlopen_n P path mode (linker w) of
        (h, e, s) \<Rightarrow> (h, native w (DlOpen path mode h) e s))"

definition dlclose :: "'o platform \<Rightarrow> handle \<Rightarrow> 'o world \<Rightarrow> int \<times> 'o world" where
  "dlclose P h w =
     (case dlclose_n P h (linker w) of
        (r, e, s) \<Rightarrow> (r, native w (DlClose h r) e s))"

definition dlsym :: "'o platform \<Rightarrow> handle \<Rightarrow> string \<Rightarrow> 'o world \<Rightarrow> handle \<times> 'o world" where
  "dlsym P h symbol w =
     (case dlsym_n P h symbol (linker w) of
        (r, e, s) \<Rightarrow> (r, native w (DlSym h symbol r (errno_after e (errno w))) e s))"

definition malloc :: "'o platform \<Rightarrow> nat \<Rightarrow> 'o world \<Rightarrow> addr option \<times> 'o world" where
  "malloc P n w =
     (case malloc_n P n (linker w) of
        (r, e, s) \<Rightarrow> (r, native w (Malloc n r) e s))"

definition free :: "'o platform \<Rightarrow> addr \<Rightarrow> 'o world \<Rightarrow> 'o world" where
  \<comment> \<open>the block is returned to the allocator; a wrapper object that lived there is gone\<close>
  "free P a w =
     w\<lparr>linker := free_n P a (linker w), objects := (objects w)(a := None),
       trace := trace w @ [Free a]\<rparr>"

definition free_buf :: "'o platform \<Rightarrow> addr \<Rightarrow> 'o world \<Rightarrow> 'o world" where
  \<comment> \<open>\<^verbatim>\<open>free\<close> of a character buffer, which is not one of the wrapper objects\<close>
  "free_buf P a w = w\<lparr>linker := free_n P a (linker w), trace := trace w @ [Free a]\<rparr>"

section \<open>The single-member loader\<close>

text \<open>
  \<open>None\<close> is undefined behaviour of the C program: a handle that does not point to
  a live wrapper object of the expected layout is dereferenced, a slot is read that
  was never written or lies outside the allocation, or a buffer is overrun.
\<close>

definition single_close :: "'o platform \<Rightarrow> handle \<Rightarrow> 'o world \<Rightarrow> (int \<times> 'o world) option" where
  "single_close P handle w =
     (case handle of
        Null \<Rightarrow> Some (EINVAL, w\<lparr>errno := EINVAL\<rparr>)
      | Sentinel s \<Rightarrow> None
      | Ptr a \<Rightarrow>
          (case objects w a of
             Some (SingleObject dlhandle) \<Rightarrow>
               (case dlclose P dlhandle w of (ret, w1) \<Rightarrow> Some (ret, free P a w1))
           | _ \<Rightarrow> None))"

definition single_sym :: "'o platform \<Rightarrow> handle \<Rightarrow> string \<Rightarrow> 'o world \<Rightarrow> (handle \<times> 'o world) option" where
  "single_sym P handle symbol w =
     (case handle of
        Null \<Rightarrow> Some (Null, w\<lparr>errno := EINVAL\<rparr>)
      | Sentinel s \<Rightarrow> None
      | Ptr a \<Rightarrow>
          (case objects w a of
             Some (SingleObject dlhandle) \<Rightarrow> Some (dlsym P dlhandle symbol w)
           | _ \<Rightarrow> None))"

definition single_open :: "'o platform \<Rightarrow> string cptr \<Rightarrow> int \<Rightarrow> 'o world \<Rightarrow> handle \<times> 'o world" where
  "single_open P path mode w =
     (case malloc P (2 * sizeof_ptr P) w of
        (None, w1) \<Rightarrow> (Null, w1)
      | (Some a, w1) \<Rightarrow>
          (case dlopen P path mode w1 of
             (dlhandle, w2) \<Rightarrow>
               if dlhandle \<noteq> Null
               then (Ptr a, w2\<lparr>objects := (objects w2)(a \<mapsto> SingleObject dlhandle)\<rparr>)
               else (Null, free P a w2)))"

section \<open>The multi-member loader\<close>

text \<open>
  The loop of \<^verbatim>\<open>multiple_close\<close> walks the slots from the first one until it reads a
  null handle. \<open>ret\<close> is the loop's running result.
\<close>

fun close_members :: "'o platform \<Rightarrow> handle option list \<Rightarrow> int \<Rightarrow> 'o world \<Rightarrow> (int \<times> 'o world) option" where
  "close_members P [] ret w = None"
| "close_members P (None # dlhandles) ret w = None"
| "close_members P (Some h # dlhandles) ret w =
     (if h = Null then Some (ret, w)
      else case dlclose P h w of
             (r, w1) \<Rightarrow> close_members P dlhandles (if r \<noteq> 0 then EINVAL else ret) w1)"

definition multiple_close :: "'o platform \<Rightarrow> handle \<Rightarrow> 'o world \<Rightarrow> (int \<times> 'o world) option" where
  "multiple_close P handle w =
     (case handle of
        Null \<Rightarrow> Some (EINVAL, w\<lparr>errno := EINVAL\<rparr>)
      | Sentinel s \<Rightarrow> None
      | Ptr a \<Rightarrow>
          (case objects w a of
             Some (MultipleObjects dlhandles) \<Rightarrow>
               (case close_members P dlhandles 0 w of
                  None \<Rightarrow> None
                | Some (ret, w1) \<Rightarrow>
                    let w2 = free P a w1 in
                    if ret = 0 then Some (ret, w2)
                    else Some (EINVAL, w2\<lparr>errno := EINVAL\<rparr>))
           | _ \<Rightarrow> None))"

text \<open>The loop of \<^verbatim>\<open>multiple_sym\<close>.\<close>

fun sym_members :: "'o platform \<Rightarrow> handle option list \<Rightarrow> string \<Rightarrow> 'o world \<Rightarrow> (handle \<times> 'o world) option" where
  "sym_members P [] symbol w = None"
| "sym_members P (None # dlhandles) symbol w = None"
| "sym_members P (Some h # dlhandles) symbol w =
     (if h = Null then Some (Null, w)
      else case dlsym P h symbol w of
             (ret, w1) \<Rightarrow>
               if ret \<noteq> Null \<or> errno w1 \<noteq> 0 then Some (ret, w1)
               else sym_members P dlhandles symbol w1)"

definition multiple_sym :: "'o platform \<Rightarrow> handle \<Rightarrow> string \<Rightarrow> 'o world \<Rightarrow> (handle \<times> 'o world) option" where
  "multiple_sym P handle symbol w =
     (case handle of
        Null \<Rightarrow> Some (Null, w\<lparr>errno := EINVAL\<rparr>)
      | Sentinel s \<Rightarrow> None
      | Ptr a \<Rightarrow>
          (case objects w a of
             Some (MultipleObjects dlhandles) \<Rightarrow> sym_members P dlhandles symbol w
           | _ \<Rightarrow> None))"

text \<open>
  The counting loop at the start of \<^verbatim>\<open>multiple_open\<close>: \<open>memberno\<close> is incremented at
  every comma of \<open>members\<close>.
\<close>

fun count_members :: "string \<Rightarrow> nat \<Rightarrow> nat" where
  "count_members [] memberno = memberno"
| "count_members (c # cs) memberno =
     count_members cs (if c = CHR '','' then memberno + 1 else memberno)"

definition set_slot :: "addr \<Rightarrow> nat \<Rightarrow> handle \<Rightarrow> 'o world \<Rightarrow> 'o world option" where
  \<comment> \<open>\<^verbatim>\<open>loaded->dlhandles[i] = h\<close>\<close>
  "set_slot a i h w =
     (case objects w a of
        Some (MultipleObjects dlhandles) \<Rightarrow>
          if i < length dlhandles
          then Some (w\<lparr>objects := (objects w)(a \<mapsto> MultipleObjects (dlhandles[i := Some h]))\<rparr>)
          else None
      | _ \<Rightarrow> None)"

text \<open>
  The opening loop of \<^verbatim>\<open>multiple_open\<close>. \<open>members\<close> is the offset in \<open>path\<close> of the
  member being opened, \<open>memberbuf\<close> the offset in the copy \<open>pathbuf\<close> where every member
  name is written, \<open>loaded\<close> the address of the aggregate. The result says whether the
  loop was left by \<^verbatim>\<open>break\<close>, that is with \<open>members\<close> still non-null. When \<open>members\<close>
  points at the terminator, \<^verbatim>\<open>nextmember - members\<close> is -1 and \<^verbatim>\<open>strncpy\<close> overruns the
  buffer.
\<close>

function open_members ::
  "'o platform \<Rightarrow> string \<Rightarrow> nat \<Rightarrow> char list \<Rightarrow> nat \<Rightarrow> addr \<Rightarrow> nat \<Rightarrow> int \<Rightarrow> 'o world
     \<Rightarrow> (bool \<times> 'o world) option" where
  "open_members P path members pathbuf memberbuf loaded memberno mode w =
     (if strlen (drop members path) = 0 then None
      else
        let nextmember =
              (case strchr (drop members path) (CHR '','') of
                 Some j \<Rightarrow> members + j
               | None \<Rightarrow> members + strlen (drop members path) - 1)
        in
        (case strncpy pathbuf memberbuf (drop members path) (nextmember - members) of
           None \<Rightarrow> None
         | Some pathbuf1 \<Rightarrow>
        (case strcpy pathbuf1 (nextmember - members + memberbuf) '')'' of
           None \<Rightarrow> None
         | Some pathbuf2 \<Rightarrow>
        (case c_str pathbuf2 of
           None \<Rightarrow> None
         | Some member_path \<Rightarrow>
        (case dlopen P (Ptr member_path) mode w of
           (h, w1) \<Rightarrow>
        (case set_slot loaded memberno h w1 of
           None \<Rightarrow> None
         | Some w2 \<Rightarrow>
        if h = Null then Some (True, w2)
        else
        (case set_slot loaded (memberno + 1) Null w2 of
           None \<Rightarrow> None
         | Some w3 \<Rightarrow>
        if path ! nextmember = CHR '',''
        then open_members P path (nextmember + 1) pathbuf2 memberbuf loaded (memberno + 1) mode w3
        else Some (False, w3))))))))"
  by pat_completeness auto
termination
proof (relation "measure (\<lambda>(P, path, members, pathbuf, memberbuf, loaded, memberno, mode, w).
                    length path - members)", goal_cases)
  case 1
  show ?case by simp
next
  case (2 P path members pathbuf memberbuf loaded memberno mode w nextmember)
  then show ?case
    by (auto simp: strlen_def split: option.splits)
qed

declare open_members.simps [simp del]

text \<open>
  \<^verbatim>\<open>multiple_open\<close>. \<^verbatim>\<open>strdup\<close> is an allocation of \<^verbatim>\<open>strlen(path) + 1\<close> bytes filled with the
  path and its terminator; the copy is only ever used through \<open>pathbuf\<close>. The aggregate
  has the one slot of \<^verbatim>\<open>dlhandles[1]\<close> and \<open>memberno\<close> more, none of them written yet.
\<close>

definition multiple_open ::
  "'o platform \<Rightarrow> string \<Rightarrow> nat \<Rightarrow> int \<Rightarrow> 'o world \<Rightarrow> (handle \<times> 'o world) option" where
  "multiple_open P path members mode w =
     (case malloc P (strlen path + 1) w of
        (None, w1) \<Rightarrow> Some (Null, w1)
      | (Some pathbuf_addr, w1) \<Rightarrow>
          let pathbuf = path @ [NUL];
              memberbuf = members;
              memberno = count_members (drop members path) 1
          in
          (case malloc P (2 * sizeof_ptr P + memberno * sizeof_ptr P) w1 of
             (None, w2) \<Rightarrow> Some (Null, free_buf P pathbuf_addr w2)
           | (Some loaded, w2) \<Rightarrow>
              let w3 = w2\<lparr>objects :=
                          (objects w2)(loaded \<mapsto> MultipleObjects (replicate (1 + memberno) None))\<rparr>
              in
              (case open_members P path members pathbuf memberbuf loaded 0 mode w3 of
                 None \<Rightarrow> None
               | Some (broke, w4) \<Rightarrow>
                   if broke
                   then (case multiple_close P (Ptr loaded) w4 of
                           None \<Rightarrow> None
                         | Some (r, w5) \<Rightarrow> Some (Null, free_buf P pathbuf_addr w5))
                   else Some (Ptr loaded, free_buf P pathbuf_addr w4))))"

section \<open>The public facade\<close>

text \<open>
  The guard of \<^verbatim>\<open>ctypes_dlopen\<close>: the offset of \<^verbatim>\<open>opening\<close> when the path is accepted as
  a member specification \<^verbatim>\<open>filename(member,member...)\<close>.
\<close>

definition member_spec :: "string \<Rightarrow> nat option" where
  "member_spec path =
     (case strrchr path (CHR '')'') of
        None \<Rightarrow> None
      | Some closing \<Rightarrow>
          if strlen (drop closing path) = 1
          then (case strrchr path (CHR ''('') of
                  None \<Rightarrow> None
                | Some opening \<Rightarrow>
                    if opening > 0 \<and> strlen (drop opening path) > 2
                       \<and> strchr (drop opening path) (CHR ''/'') = None
                    then Some opening
                    else None)
          else None)"

definition ctypes_dlopen ::
  "'o platform \<Rightarrow> string cptr \<Rightarrow> int \<Rightarrow> 'o world \<Rightarrow> (handle \<times> 'o world) option" where
  "ctypes_dlopen P path mode w =
     (case path of
        Ptr p \<Rightarrow>
          (case member_spec p of
             Some opening \<Rightarrow>
               if strchr (drop opening p) (CHR '','') \<noteq> None
               then multiple_open P p (opening + 1) (mode OR RTLD_MEMBER P) w
               else Some (single_open P path (mode OR RTLD_MEMBER P) w)
           | None \<Rightarrow> Some (single_open P path mode w))
      | _ \<Rightarrow> Some (single_open P path mode w))"

definition ctypes_dlclose :: "'o platform \<Rightarrow> handle \<Rightarrow> 'o world \<Rightarrow> (int \<times> 'o world) option" where
  "ctypes_dlclose P handle w =
     (case handle of
        Ptr a \<Rightarrow>
          (case objects w a of
             Some (SingleObject dlhandle) \<Rightarrow> single_close P handle w
           | Some (MultipleObjects dlhandles) \<Rightarrow> multiple_close P handle w
           | None \<Rightarrow> None)
      | _ \<Rightarrow> Some (dlclose P handle w))"

definition ctypes_dlsym ::
  "'o platform \<Rightarrow> handle \<Rightarrow> string \<Rightarrow> 'o world \<Rightarrow> (handle \<times> 'o world) option" where
  "ctypes_dlsym P handle symbol w =
     (case handle of
        Ptr a \<Rightarrow>
          (case objects w a of
             Some (SingleObject dlhandle) \<Rightarrow> single_sym P handle symbol w
           | Some (MultipleObjects dlhandles) \<Rightarrow> multiple_sym P handle symbol w
           | None \<Rightarrow> None)
      | _ \<Rightarrow> Some (dlsym P handle symbol w))"

section \<open>Observing a call\<close>

text \<open>The native calls made between two worlds, oldest first.\<close>

definition new_events :: "'o world \<Rightarrow> 'o world \<Rightarrow> event list" where
  "new_events w w' = drop (length (trace w)) (trace w')"

text \<open>
  \<open>handle\<close> points to an aggregate whose slots hold the non-null native handles \<open>hs\<close>
  followed by the null terminator.
\<close>

definition multiple_handle :: "'o world \<Rightarrow> handle \<Rightarrow> handle list \<Rightarrow> bool" where
  "multiple_handle w handle hs =
     (case handle of
        Ptr a \<Rightarrow> objects w a = Some (MultipleObjects (map Some hs @ [Some Null])) \<and> Null \<notin> set hs
      | _ \<Rightarrow> False)"

definition sym_events :: "string \<Rightarrow> handle list \<Rightarrow> (handle \<times> int) list \<Rightarrow> event list" where
  "sym_events symbol hs rs = map (\<lambda>(h, r, e). DlSym h symbol r e) (zip hs rs)"

definition close_events :: "handle list \<Rightarrow> int list \<Rightarrow> event list" where
  "close_events hs rs = map (\<lambda>(h, r). DlClose h r) (zip hs rs)"


definition native_opens :: "event list \<Rightarrow> (string cptr \<times> int \<times> handle) list" where
  "native_opens evs =
     concat (map (\<lambda>ev. case ev of DlOpen path mode h \<Rightarrow> [(path, mode, h)] | _ \<Rightarrow> []) evs)"

definition open_results :: "event list \<Rightarrow> handle list" where
  "open_results evs = map (\<lambda>(path, mode, h). h) (native_opens evs)"

definition open_events :: "string \<Rightarrow> int \<Rightarrow> string list \<Rightarrow> handle list \<Rightarrow> event list" where
  "open_events pre mode names hs =
     map (\<lambda>(m, h). DlOpen (Ptr (pre @ m @ '')'')) mode h) (zip names hs)"

text \<open>
  What the log says about the native handles: a handle is open from the native open that
  returned it until a native close of it that returned 0. \<open>still_open evs opened\<close> are
  the handles open after the calls \<open>evs\<close> when \<open>opened\<close> were open before, a handle
  that was opened twice being listed twice.
\<close>

fun still_open :: "event list \<Rightarrow> handle list \<Rightarrow> handle list" where
  "still_open [] opened = opened"
| "still_open (DlOpen path mode h # evs) opened =
     still_open evs (if h = Null then opened else opened @ [h])"
| "still_open (DlClose h r # evs) opened =
     still_open evs (if r = 0 then remove1 h opened else opened)"
| "still_open (DlSym h symbol r e # evs) opened = still_open evs opened"
| "still_open (Malloc n r # evs) opened = still_open evs opened"
| "still_open (Free a # evs) opened = still_open evs opened"

text \<open>
  The log is faithful to the platform: \<open>replay\<close> makes the recorded native calls again,
  one after the other, from a value of \<^verbatim>\<open>errno\<close> and a native state, and fails when a call
  does not return what the log says it returned. Its result is \<^verbatim>\<open>errno\<close> and the native
  state after the last call. \<open>played P w w'\<close> says that the log of \<open>w'\<close> continues the log
  of \<open>w\<close> and that the native calls alone lead from \<^verbatim>\<open>errno\<close> and the native state of
  \<open>w\<close> to those of \<open>w'\<close>.
\<close>

fun replay :: "'o platform \<Rightarrow> event list \<Rightarrow> int \<times> 'o \<Rightarrow> (int \<times> 'o) option" where
  "replay P [] st = Some st"
| "replay P (DlOpen path mode h # evs) (e, s) =
     (case dlopen_n P path mode s of
        (h', e', s') \<Rightarrow> if h' = h then replay P evs (errno_after e' e, s') else None)"
| "replay P (DlClose h r # evs) (e, s) =
     (case dlclose_n P h s of
        (r', e', s') \<Rightarrow> if r' = r then replay P evs (errno_after e' e, s') else None)"
| "replay P (DlSym h symbol r en # evs) (e, s) =
     (case dlsym_n P h symbol s of
        (r', e', s') \<Rightarrow>
          if r' = r \<and> errno_after e' e = en then replay P evs (en, s') else None)"
| "replay P (Malloc n r # evs) (e, s) =
     (case malloc_n P n s of
        (r', e', s') \<Rightarrow> if r' = r then replay P evs (errno_after e' e, s') else None)"
| "replay P (Free a # evs) (e, s) = replay P evs (e, free_n P a s)"

definition played :: "'o platform \<Rightarrow> 'o world \<Rightarrow> 'o world \<Rightarrow> bool" where
  "played P w w' \<longleftrightarrow>
     take (length (trace w)) (trace w') = trace w
     \<and> replay P (new_events w w') (errno w, linker w) = Some (errno w', linker w')"

section \<open>The member syntax in the words of the specification\<close>

text \<open>
  The text between the parentheses is cut at every comma; empty pieces are kept.
  \<open>spec_member_syntax\<close> is the recognition rule as the specification's data model words
  it: the last character is a closing parenthesis, the rightmost opening parenthesis is
  not the first character, at least one member segment is non-empty, and no path
  separator stands between the parentheses.
\<close>

fun split_members :: "string \<Rightarrow> string list" where
  "split_members [] = [[]]"
| "split_members (c # cs) =
     (if c = CHR '','' then [] # split_members cs
      else (c # hd (split_members cs)) # tl (split_members cs))"

definition spec_member_syntax :: "string \<Rightarrow> bool" where
  "spec_member_syntax path \<longleftrightarrow>
     path \<noteq> [] \<and> last path = CHR '')'' \<and>
     (case strrchr path (CHR ''('') of
        None \<Rightarrow> False
      | Some i \<Rightarrow>
          0 < i
          \<and> (\<exists>m \<in> set (split_members (butlast (drop (Suc i) path))). m \<noteq> [])
          \<and> CHR ''/'' \<notin> set (butlast (drop (Suc i) path)))"

definition member_names :: "string \<Rightarrow> nat \<Rightarrow> string list" where
  \<comment> \<open>the text between \<open>opening\<close> and the final parenthesis, cut at the commas\<close>
  "member_names path opening = split_members (butlast (drop (opening + 1) path))"

definition member_path :: "string \<Rightarrow> nat \<Rightarrow> string \<Rightarrow> string" where
  \<comment> \<open>the path with the single member \<open>m\<close> between the parentheses\<close>
  "member_path path opening m = take (opening + 1) path @ m @ '')''"

section \<open>The opening loop over a list of member names\<close>

text \<open>
  What the opening loop of \<^verbatim>\<open>multiple_open\<close> does once the member names are cut out of
  the path: each name is put between the parentheses after \<open>pre\<close>, opened, and stored.
  \<open>open_members_list\<close> below proves that the pointer loop \<open>open_members\<close> computes
  exactly this.
\<close>

fun open_list ::
  "'o platform \<Rightarrow> string \<Rightarrow> addr \<Rightarrow> string list \<Rightarrow> nat \<Rightarrow> int \<Rightarrow> 'o world
     \<Rightarrow> (bool \<times> 'o world) option" where
  "open_list P pre loaded [] memberno mode w = Some (False, w)"
| "open_list P pre loaded (m # ms) memberno mode w =
     (case dlopen P (Ptr (pre @ m @ '')'')) mode w of
        (h, w1) \<Rightarrow>
          (case set_slot loaded memberno h w1 of
             None \<Rightarrow> None
           | Some w2 \<Rightarrow>
               if h = Null then Some (True, w2)
               else (case set_slot loaded (memberno + 1) Null w2 of
                       None \<Rightarrow> None
                     | Some w3 \<Rightarrow> open_list P pre loaded ms (memberno + 1) mode w3)))"

section \<open>A sample platform\<close>

text \<open>
  A loader whose state counts the calls made so far: it hands out fresh handles, refuses
  the member \<^verbatim>\<open>bad.o\<close>, resolves every symbol in the object 103 and in the global scope,
  fails lookups of \<^verbatim>\<open>t\<close> elsewhere with error 5 and resolves \<^verbatim>\<open>u\<close> everywhere. The close
  of the object 102 fails. Allocation fails from state 50 on. Only the failing lookup
  stores to \<^verbatim>\<open>errno\<close>. \<open>clearing\<close> is the same platform with a lookup that stores its own
  \<^verbatim>\<open>errno\<close> at every call: 0 when it found the symbol or merely did not find it.
\<close>

definition demo :: "nat platform" where
  "demo =
     \<lparr>dlopen_n = (\<lambda>path mode s.
          (if path = Ptr ''libc.a(bad.o)'' then Null else Ptr (100 + s), None, Suc s)),
      dlclose_n = (\<lambda>h s. (if h = Ptr 102 then 1 else 0, None, s)),
      dlsym_n = (\<lambda>h symbol s.
          if h = Ptr 103 then (Ptr 7, None, s)
          else if h = Null then (Ptr 9, None, s)
          else if symbol = ''t'' then (Null, Some 5, s)
          else if symbol = ''u'' then (Ptr 8, None, s)
          else (Null, None, s)),
      malloc_n = (\<lambda>n s. (if s < 50 then Some (10 + s) else None, None, Suc s)),
      free_n = (\<lambda>a s. s),
      RTLD_MEMBER = 0x40000,
      sizeof_ptr = 8\<rparr>"


definition loaded_world :: "nat world" where
  \<comment> \<open>an aggregate of the two members 102 and 103 lives at address 11\<close>
  "loaded_world =
     \<lparr>errno = 0, linker = 4,
      objects = [11 \<mapsto> MultipleObjects [Some (Ptr 102), Some (Ptr 103), Some Null]],
      trace = []\<rparr>"

definition three_world :: "nat world" where
  \<comment> \<open>an aggregate of the three members 102, 104 and 103 lives at address 11\<close>
  "three_world =
     \<lparr>errno = 0, linker = 4,
      objects = [11 \<mapsto> MultipleObjects
                   [Some (Ptr 102), Some (Ptr 104), Some (Ptr 103), Some Null]],
      trace = []\<rparr>"

definition fresh_world :: "nat world" where
  "fresh_world = \<lparr>errno = 0, linker = 0, objects = Map.empty, trace = []\<rparr>"

definition exhausted_world :: "nat world" where
  "exhausted_world = \<lparr>errno = 0, linker = 50, objects = Map.empty, trace = []\<rparr>"

definition opened_world :: "nat world" where
  \<comment> \<open>the sample platform after opening \<^verbatim>\<open>libc.a(shr.o,shr_64.o)\<close> in \<open>fresh_world\<close>\<close>
  "opened_world =
     \<lparr>errno = 0, linker = 4,
      objects = [11 \<mapsto> MultipleObjects [Some (Ptr 102), Some (Ptr 103), Some Null]],
      trace = [Malloc 23 (Some 10), Malloc 32 (Some 11),
               DlOpen (Ptr ''libc.a(shr.o)'') 262146 (Ptr 102),
               DlOpen (Ptr ''libc.a(shr_64.o)'') 262146 (Ptr 103), Free 10]\<rparr>"

definition unwound_world :: "nat world" where
  \<comment> \<open>the sample platform after the failed open of \<^verbatim>\<open>libc.a(x,bad.o,y)\<close> in \<open>fresh_world\<close>\<close>
  "unwound_world =
     \<lparr>errno = 22, linker = 4, objects = Map.empty,
      trace = [Malloc 18 (Some 10), Malloc 40 (Some 11),
               DlOpen (Ptr ''libc.a(x)'') 262146 (Ptr 102),
               DlOpen (Ptr ''libc.a(bad.o)'') 262146 Null,
               DlClose (Ptr 102) 1, Free 11, Free 10]\<rparr>"

section \<open>Effects of the native calls\<close>

lemma dlsym_effect:
  "\<exists>r e s. dlsym P h symbol w =
      (r, w\<lparr>errno := e, linker := s, trace := trace w @ [DlSym h symbol r e]\<rparr>)
      \<and> (\<exists>e'. dlsym_n P h symbol (linker w) = (r, e', s) \<and> e = errno_after e' (errno w))"
proof -
  obtain r e s where n: "dlsym_n P h symbol (linker w) = (r, e, s)"
    by (cases "dlsym_n P h symbol (linker w)") auto
  show ?thesis
    by (rule exI[of _ r], rule exI[of _ "errno_after e (errno w)"], rule exI[of _ s])
       (simp add: dlsym_def native_def n)
qed

lemma dlclose_effect:
  "\<exists>r e s. dlclose P h w =
      (r, w\<lparr>errno := e, linker := s, trace := trace w @ [DlClose h r]\<rparr>)"
proof -
  obtain r e s where n: "dlclose_n P h (linker w) = (r, e, s)"
    by (cases "dlclose_n P h (linker w)") auto
  show ?thesis
    by (rule exI[of _ r], rule exI[of _ "errno_after e (errno w)"], rule exI[of _ s])
       (simp add: dlclose_def native_def n)
qed

lemma sym_members_run:
  "Null \<notin> set hs \<Longrightarrow>
   \<exists>r w' rs. sym_members P (map Some hs @ Some Null # junk) symbol w = Some (r, w')
      \<and> length rs \<le> length hs
      \<and> trace w' = trace w @ sym_events symbol hs rs
      \<and> (\<forall>x \<in> set (butlast rs). x = (Null, 0))
      \<and> (if rs \<noteq> [] \<and> last rs \<noteq> (Null, 0) then r = fst (last rs)
          else length rs = length hs \<and> r = Null)
      \<and> errno w' = (if rs = [] then errno w else snd (last rs))
      \<and> objects w' = objects w"
proof (induction hs arbitrary: w)
  case Nil
  show ?case by (rule exI[of _ Null], rule exI[of _ w], rule exI[of _ "[]"]) (simp add: sym_events_def)
next
  case (Cons h hs)
  obtain r e s where d: "dlsym P h symbol w =
      (r, w\<lparr>errno := e, linker := s, trace := trace w @ [DlSym h symbol r e]\<rparr>)"
    using dlsym_effect[of P h symbol w] by auto
  let ?w1 = "w\<lparr>errno := e, linker := s, trace := trace w @ [DlSym h symbol r e]\<rparr>"
  from Cons.prems have hn: "h \<noteq> Null" and hs: "Null \<notin> set hs" by auto
  show ?case
  proof (cases "r \<noteq> Null \<or> e \<noteq> 0")
    case True
    show ?thesis
      by (rule exI[of _ r], rule exI[of _ ?w1], rule exI[of _ "[(r, e)]"])
         (use True hn d in \<open>auto simp: sym_events_def\<close>)
  next
    case False
    from Cons.IH[OF hs, of ?w1] obtain r' w' rs where
      ih: "sym_members P (map Some hs @ Some Null # junk) symbol ?w1 = Some (r', w')"
          "length rs \<le> length hs"
          "trace w' = trace ?w1 @ sym_events symbol hs rs"
          "\<forall>x \<in> set (butlast rs). x = (Null, 0)"
          "if rs \<noteq> [] \<and> last rs \<noteq> (Null, 0) then r' = fst (last rs)
           else length rs = length hs \<and> r' = Null"
          "errno w' = (if rs = [] then errno ?w1 else snd (last rs))"
          "objects w' = objects ?w1"
      by blast
    show ?thesis
      by (rule exI[of _ r'], rule exI[of _ w'], rule exI[of _ "(Null, 0) # rs"])
         (use False hn d ih in \<open>auto simp: sym_events_def split: if_splits\<close>)
  qed
qed

lemma close_members_run:
  "Null \<notin> set hs \<Longrightarrow>
   \<exists>ret' w' rs. close_members P (map Some hs @ Some Null # junk) ret w = Some (ret', w')
      \<and> length rs = length hs
      \<and> trace w' = trace w @ close_events hs rs
      \<and> ret' = (if \<exists>r \<in> set rs. r \<noteq> 0 then EINVAL else ret)
      \<and> objects w' = objects w"
proof (induction hs arbitrary: w ret)
  case Nil
  show ?case by (rule exI[of _ ret], rule exI[of _ w], rule exI[of _ "[]"]) (simp add: close_events_def)
next
  case (Cons h hs)
  obtain r e s where d: "dlclose P h w =
      (r, w\<lparr>errno := e, linker := s, trace := trace w @ [DlClose h r]\<rparr>)"
    using dlclose_effect[of P h w] by auto
  let ?w1 = "w\<lparr>errno := e, linker := s, trace := trace w @ [DlClose h r]\<rparr>"
  let ?ret1 = "if r \<noteq> 0 then EINVAL else ret"
  from Cons.prems have hn: "h \<noteq> Null" and hs: "Null \<notin> set hs" by auto
  from Cons.IH[OF hs, of ?ret1 ?w1] obtain ret' w' rs where
      ih: "close_members P (map Some hs @ Some Null # junk) ?ret1 ?w1 = Some (ret', w')"
          "length rs = length hs"
          "trace w' = trace ?w1 @ close_events hs rs"
          "ret' = (if \<exists>r \<in> set rs. r \<noteq> 0 then EINVAL else ?ret1)"
          "objects w' = objects ?w1"
      by blast
  show ?case
    by (rule exI[of _ ret'], rule exI[of _ w'], rule exI[of _ "r # rs"])
       (use hn d ih in \<open>auto simp: close_events_def\<close>)
qed

section \<open>The log and the native state\<close>

lemma replay_append:
  "replay P (evs @ evs') st =
     (case replay P evs st of None \<Rightarrow> None | Some st' \<Rightarrow> replay P evs' st')"
  by (induction P evs st rule: replay.induct) (auto split: prod.splits)

lemma played_iff:
  "played P w w' \<longleftrightarrow>
     (\<exists>evs. trace w' = trace w @ evs
        \<and> replay P evs (errno w, linker w) = Some (errno w', linker w'))"
proof
  assume p: "played P w w'"
  then have "trace w' = trace w @ new_events w w'"
    unfolding played_def new_events_def by (metis append_take_drop_id)
  with p show "\<exists>evs. trace w' = trace w @ evs
        \<and> replay P evs (errno w, linker w) = Some (errno w', linker w')"
    unfolding played_def by blast
next
  assume "\<exists>evs. trace w' = trace w @ evs
        \<and> replay P evs (errno w, linker w) = Some (errno w', linker w')"
  then show "played P w w'"
    by (auto simp: played_def new_events_def)
qed

lemma played_refl: "played P w w"
  by (simp add: played_def new_events_def)

lemma played_trans:
  assumes "played P w w1" and "played P w1 w2"
  shows "played P w w2"
proof -
  from assms(1) obtain e1 where
    1: "trace w1 = trace w @ e1" "replay P e1 (errno w, linker w) = Some (errno w1, linker w1)"
    unfolding played_iff by blast
  from assms(2) obtain e2 where
    2: "trace w2 = trace w1 @ e2" "replay P e2 (errno w1, linker w1) = Some (errno w2, linker w2)"
    unfolding played_iff by blast
  have "trace w2 = trace w @ (e1 @ e2)" using 1(1) 2(1) by simp
  moreover have "replay P (e1 @ e2) (errno w, linker w) = Some (errno w2, linker w2)"
    by (simp add: replay_append 1(2) 2(2))
  ultimately show ?thesis unfolding played_iff by blast
qed

lemma played_dlsym: "dlsym P h symbol w = (r, w1) \<Longrightarrow> played P w w1"
  by (cases "dlsym_n P h symbol (linker w)")
     (auto simp: dlsym_def native_def played_def new_events_def)

lemma played_dlclose: "dlclose P h w = (r, w1) \<Longrightarrow> played P w w1"
  by (cases "dlclose_n P h (linker w)")
     (auto simp: dlclose_def native_def played_def new_events_def)

lemma played_dlopen: "dlopen P path mode w = (h, w1) \<Longrightarrow> played P w w1"
  by (cases "dlopen_n P path mode (linker w)")
     (auto simp: dlopen_def native_def played_def new_events_def)

lemma played_malloc: "malloc P n w = (r, w1) \<Longrightarrow> played P w w1"
  by (cases "malloc_n P n (linker w)")
     (auto simp: malloc_def native_def played_def new_events_def)

lemma played_objects: "played P w (w\<lparr>objects := x\<rparr>)"
  by (simp add: played_def new_events_def)

lemma played_set_slot: "set_slot a i h w = Some w1 \<Longrightarrow> played P w w1"
  by (auto simp: set_slot_def played_def new_events_def split: option.splits object.splits if_splits)

lemma sym_members_played:
  "sym_members P slots symbol w = Some (r, w') \<Longrightarrow> played P w w'"
proof (induction P slots symbol w rule: sym_members.induct)
  case (1 P symbol w)
  then show ?case by simp
next
  case (2 P dlhandles symbol w)
  then show ?case by simp
next
  case (3 P h dlhandles symbol w)
  show ?case
  proof (cases "h = Null")
    case True
    with 3 show ?thesis by (simp add: played_refl)
  next
    case False
    obtain ret w1 where d: "dlsym P h symbol w = (ret, w1)"
      by (cases "dlsym P h symbol w") auto
    note p1 = played_dlsym[OF d]
    show ?thesis
    proof (cases "ret \<noteq> Null \<or> errno w1 \<noteq> 0")
      case True
      with 3(2) False d have "w' = w1" by auto
      with p1 show ?thesis by simp
    next
      case stop: False
      with 3(2) False d have "sym_members P dlhandles symbol w1 = Some (r, w')" by auto
      from 3(1)[OF False d[symmetric] stop this] p1 show ?thesis
        by (rule played_trans[rotated])
    qed
  qed
qed

lemma close_members_played:
  "close_members P slots ret w = Some (r, w') \<Longrightarrow> played P w w'"
proof (induction P slots ret w rule: close_members.induct)
  case (1 P ret w)
  then show ?case by simp
next
  case (2 P dlhandles ret w)
  then show ?case by simp
next
  case (3 P h dlhandles ret w)
  show ?case
  proof (cases "h = Null")
    case True
    with 3 show ?thesis by (simp add: played_refl)
  next
    case False
    obtain x w1 where d: "dlclose P h w = (x, w1)"
      by (cases "dlclose P h w") auto
    note p1 = played_dlclose[OF d]
    from 3(2) False d
    have "close_members P dlhandles (if x \<noteq> 0 then EINVAL else ret) w1 = Some (r, w')" by simp
    from 3(1)[OF False d[symmetric] this] p1 show ?thesis
      by (rule played_trans[rotated])
  qed
qed

lemma open_list_played:
  "open_list P pre loaded names memberno mode w = Some (b, w') \<Longrightarrow> played P w w'"
proof (induction names arbitrary: w memberno)
  case Nil
  then show ?case by (simp add: played_refl)
next
  case (Cons m ms)
  obtain h w1 where d: "dlopen P (Ptr (pre @ m @ '')'')) mode w = (h, w1)"
    by (cases "dlopen P (Ptr (pre @ m @ '')'')) mode w") auto
  note p1 = played_dlopen[OF d]
  from Cons.prems d obtain w2 where s2: "set_slot loaded memberno h w1 = Some w2"
    by (auto split: option.splits)
  have p2: "played P w w2" using p1 played_set_slot[OF s2] by (rule played_trans)
  show ?case
  proof (cases "h = Null")
    case True
    with Cons.prems d s2 have "w' = w2" by simp
    with p2 show ?thesis by simp
  next
    case False
    from Cons.prems d s2 False obtain w3 where
      s3: "set_slot loaded (memberno + 1) Null w2 = Some w3"
      and r: "open_list P pre loaded ms (memberno + 1) mode w3 = Some (b, w')"
      by (auto split: option.splits)
    have p3: "played P w w3" using p2 played_set_slot[OF s3] by (rule played_trans)
    from p3 Cons.IH[OF r] show ?thesis by (rule played_trans)
  qed
qed

lemma played_frees:
  assumes "played P w w5"
      and "trace W = trace w5 @ [Free a, Free b]"
      and "linker W = free_n P b (free_n P a (linker w5))"
  shows "map_option snd (replay P (new_events w W) (errno w, linker w)) = Some (linker W)"
proof -
  from assms(1) obtain evs where
    1: "trace w5 = trace w @ evs" "replay P evs (errno w, linker w) = Some (errno w5, linker w5)"
    unfolding played_iff by blast
  have "new_events w W = evs @ [Free a, Free b]"
    using 1(1) assms(2) by (simp add: new_events_def)
  then show ?thesis
    by (simp add: replay_append 1(2) assms(3))
qed

lemma still_open_append:
  "still_open (evs @ evs') opened = still_open evs' (still_open evs opened)"
  by (induction evs opened rule: still_open.induct) simp_all

lemma still_open_open_events:
  "length hs \<le> length names \<Longrightarrow>
   still_open (open_events pre mode names hs) opened = opened @ filter (\<lambda>h. h \<noteq> Null) hs"
proof (induction names hs arbitrary: opened rule: list_induct2')
  case (4 x xs y ys)
  then show ?case by (simp add: open_events_def)
qed (simp_all add: open_events_def)

lemma still_open_closed:
  "length rs = length hs \<Longrightarrow> \<forall>r \<in> set rs. r = 0 \<Longrightarrow>
   still_open (close_events hs rs) (hs @ rest) = rest"
proof (induction hs rs rule: list_induct2')
  case (4 x xs y ys)
  then show ?case by (simp add: close_events_def)
qed (simp_all add: close_events_def)

lemma still_open_close_length:
  "length opened \<le> length (still_open (close_events hs rs) opened)
                       + length (filter (\<lambda>r. r = 0) rs)"
proof (induction hs rs arbitrary: opened rule: list_induct2')
  case (4 x xs y ys)
  have "length opened \<le> Suc (length (remove1 x opened))"
    by (cases opened) (auto simp: length_remove1)
  with 4[of "remove1 x opened"] 4[of opened] show ?case
    by (auto simp: close_events_def)
qed (simp_all add: close_events_def)

lemma still_open_unwind:
  assumes "Null \<notin> set hs" and "length hs < length names" and "length rs = length hs"
  shows "still_open ([Malloc n1 r1, Malloc n2 r2]
            @ open_events pre mode names (hs @ [Null])
            @ close_events hs rs @ [Free a, Free b]) [] = []
         \<longleftrightarrow> (\<forall>r \<in> set rs. r = 0)"
proof -
  have f: "filter (\<lambda>h. h \<noteq> Null) hs = hs" using assms(1) by (induction hs) auto
  have o: "still_open (open_events pre mode names (hs @ [Null])) [] = hs"
    using assms(2) f by (simp add: still_open_open_events)
  have e: "still_open ([Malloc n1 r1, Malloc n2 r2]
            @ open_events pre mode names (hs @ [Null])
            @ close_events hs rs @ [Free a, Free b]) []
           = still_open (close_events hs rs) hs"
    by (simp add: still_open_append o)
  show ?thesis
  proof
    assume z: "still_open ([Malloc n1 r1, Malloc n2 r2]
            @ open_events pre mode names (hs @ [Null])
            @ close_events hs rs @ [Free a, Free b]) [] = []"
    have "length hs \<le> length (filter (\<lambda>r. r = 0) rs)"
      using still_open_close_length[of hs hs rs] z e by simp
    with assms(3) have "length (filter (\<lambda>r. r = 0) rs) = length rs"
      using length_filter_le[of "\<lambda>r. r = 0" rs] by simp
    then show "\<forall>r \<in> set rs. r = 0"
      by (metis (mono_tags, lifting) filter_id_conv length_filter_less less_irrefl)
  next
    assume "\<forall>r \<in> set rs. r = 0"
    with still_open_closed[OF assms(3), of "[]"] e show "still_open ([Malloc n1 r1, Malloc n2 r2]
            @ open_events pre mode names (hs @ [Null])
            @ close_events hs rs @ [Free a, Free b]) [] = []"
      by simp
  qed
qed

section \<open>Lookup and close on an aggregate\<close>

lemma ctypes_dlsym_multiple:
  "multiple_handle w handle hs \<Longrightarrow>
   ctypes_dlsym P handle symbol w
     = sym_members P (map Some hs @ [Some Null]) symbol w"
  by (auto simp: multiple_handle_def ctypes_dlsym_def multiple_sym_def split: cptr.splits)

lemma aggregate_close_run:
  assumes "multiple_handle w handle hs"
  shows "\<exists>ret w' rs a. handle = Ptr a
           \<and> ctypes_dlclose P handle w = Some (ret, w')
           \<and> length rs = length hs
           \<and> new_events w w' = close_events hs rs @ [Free a]
           \<and> objects w' = (objects w)(a := None)
           \<and> (ret \<noteq> 0 \<longleftrightarrow> (\<exists>r \<in> set rs. r \<noteq> 0))"
proof -
  from assms obtain a where a: "handle = Ptr a"
      "objects w a = Some (MultipleObjects (map Some hs @ [Some Null]))" and nn: "Null \<notin> set hs"
    by (auto simp: multiple_handle_def split: cptr.splits)
  from close_members_run[OF nn, of P "[]" 0 w] obtain ret' w1 rs where
    run: "close_members P (map Some hs @ [Some Null]) 0 w = Some (ret', w1)"
         "length rs = length hs"
         "trace w1 = trace w @ close_events hs rs"
         "ret' = (if \<exists>r \<in> set rs. r \<noteq> 0 then EINVAL else 0)"
         "objects w1 = objects w"
    by blast
  let ?w2 = "free P a w1"
  let ?w' = "if ret' = 0 then ?w2 else ?w2\<lparr>errno := EINVAL\<rparr>"
  let ?ret = "if ret' = 0 then ret' else EINVAL"
  have c: "ctypes_dlclose P handle w = Some (?ret, ?w')"
    using a run(1) by (simp add: ctypes_dlclose_def multiple_close_def Let_def)
  have ev: "new_events w ?w' = close_events hs rs @ [Free a]"
    using run(3) by (simp add: new_events_def free_def)
  show ?thesis
    apply (rule exI[of _ ?ret], rule exI[of _ ?w'], rule exI[of _ rs], rule exI[of _ a])
    using a(1) c run(2,4,5) ev by (auto simp: free_def EINVAL_def)
qed

lemma aggregate_sym_run:
  assumes "multiple_handle w handle hs"
  shows "\<exists>x w' rs. ctypes_dlsym P handle symbol w = Some (x, w')
           \<and> length rs \<le> length hs
           \<and> new_events w w' = sym_events symbol hs rs
           \<and> (length rs < length hs \<longrightarrow> rs \<noteq> [] \<and> last rs \<noteq> (Null, 0))"
proof -
  from assms have nn: "Null \<notin> set hs"
    by (auto simp: multiple_handle_def split: cptr.splits)
  from sym_members_run[OF nn, of P "[]" symbol w] obtain r w' rs where
    run: "sym_members P (map Some hs @ [Some Null]) symbol w = Some (r, w')"
         "length rs \<le> length hs"
         "trace w' = trace w @ sym_events symbol hs rs"
         "if rs \<noteq> [] \<and> last rs \<noteq> (Null, 0) then r = fst (last rs)
          else length rs = length hs \<and> r = Null"
    by blast
  have "length rs < length hs \<longrightarrow> rs \<noteq> [] \<and> last rs \<noteq> (Null, 0)"
    using run(4) by (auto split: if_splits)
  with run(1,2,3) show ?thesis
    unfolding ctypes_dlsym_multiple[OF assms] new_events_def by auto
qed

text \<open>
  C3. A lookup on an aggregate probes its members in open order, each probe being the
  native lookup in that member, made from the errno and the native state that the probe
  before it left. The lookup goes on to the next member exactly when a probe yields null
  and leaves errno at zero: every probe but the last one did so, and a lookup that
  stops before the last member stopped at a probe that yielded an address or left errno
  nonzero. The first probe that yields a non-null address ends the lookup and is its
  result; when every probe yields null the result is null. The aggregate is unchanged.
  For two members A and B, when the lookup in A yields null and leaves errno at zero
  and the lookup in B yields X, the aggregate lookup yields X.
\<close>

theorem multiple_sym_first_match:
  assumes "multiple_handle w handle hs"
  shows "(\<exists>r w' rs. ctypes_dlsym P handle symbol w = Some (r, w')
            \<and> length rs \<le> length hs
            \<and> new_events w w' = sym_events symbol hs rs
            \<and> replay P (new_events w w') (errno w, linker w) = Some (errno w', linker w')
            \<and> objects w' = objects w
            \<and> (\<forall>i < length rs. fst (rs ! i) \<noteq> Null \<longrightarrow> Suc i = length rs \<and> r = fst (rs ! i))
            \<and> (\<forall>i. Suc i < length rs \<longrightarrow> rs ! i = (Null, 0))
            \<and> (length rs < length hs \<longrightarrow> rs \<noteq> [] \<and> last rs \<noteq> (Null, 0))
            \<and> ((\<forall>x \<in> set rs. fst x = Null) \<longrightarrow> r = Null))
         \<and> (\<forall>A B X w1 w2. hs = [A, B] \<and> dlsym P A symbol w = (Null, w1) \<and> errno w1 = 0
               \<and> dlsym P B symbol w1 = (X, w2)
               \<longrightarrow> ctypes_dlsym P handle symbol w = Some (X, w2))"
proof
  from assms have nn: "Null \<notin> set hs"
    by (auto simp: multiple_handle_def split: cptr.splits)
  from sym_members_run[OF nn, of P "[]" symbol w] obtain r w' rs where
    run: "sym_members P (map Some hs @ [Some Null]) symbol w = Some (r, w')"
         "length rs \<le> length hs"
         "trace w' = trace w @ sym_events symbol hs rs"
         "\<forall>x \<in> set (butlast rs). x = (Null, 0)"
         "if rs \<noteq> [] \<and> last rs \<noteq> (Null, 0) then r = fst (last rs)
          else length rs = length hs \<and> r = Null"
         "objects w' = objects w"
    by blast
  have c1: "ctypes_dlsym P handle symbol w = Some (r, w')"
    unfolding ctypes_dlsym_multiple[OF assms] by (rule run(1))
  have c3: "new_events w w' = sym_events symbol hs rs"
    by (simp add: new_events_def run(3))
  have c4: "replay P (new_events w w') (errno w, linker w) = Some (errno w', linker w')"
    using sym_members_played[OF run(1)] by (simp add: played_def)
  have inner: "rs ! i = (Null, 0)" if "Suc i < length rs" for i
  proof -
    from that have b: "i < length (butlast rs)" by simp
    then have "butlast rs ! i \<in> set (butlast rs)" by simp
    with run(4) have "butlast rs ! i = (Null, 0)" by blast
    with b show ?thesis by (simp add: nth_butlast)
  qed
  have c6: "\<forall>i < length rs. fst (rs ! i) \<noteq> Null \<longrightarrow> Suc i = length rs \<and> r = fst (rs ! i)"
  proof (intro allI impI)
    fix i assume i: "i < length rs" "fst (rs ! i) \<noteq> Null"
    have "\<not> Suc i < length rs" using inner[of i] i(2) by auto
    with i have l: "Suc i = length rs" by simp
    then have "last rs = rs ! i" using i
      by (metis diff_Suc_1 last_conv_nth length_0_conv nat.simps(3))
    with i run(5) l show "Suc i = length rs \<and> r = fst (rs ! i)" by (auto split: if_splits)
  qed
  have c7: "\<forall>i. Suc i < length rs \<longrightarrow> rs ! i = (Null, 0)"
    using inner by blast
  have c8: "length rs < length hs \<longrightarrow> rs \<noteq> [] \<and> last rs \<noteq> (Null, 0)"
    using run(5) by (auto split: if_splits)
  have c9: "(\<forall>x \<in> set rs. fst x = Null) \<longrightarrow> r = Null"
  proof
    assume a: "\<forall>x \<in> set rs. fst x = Null"
    show "r = Null"
    proof (cases "rs \<noteq> [] \<and> last rs \<noteq> (Null, 0)")
      case True
      then have "last rs \<in> set rs" by simp
      with a have "fst (last rs) = Null" by blast
      with True run(5) show ?thesis by simp
    next
      case False
      with run(5) show ?thesis by (simp split: if_splits)
    qed
  qed
  show "\<exists>r w' rs. ctypes_dlsym P handle symbol w = Some (r, w')
            \<and> length rs \<le> length hs
            \<and> new_events w w' = sym_events symbol hs rs
            \<and> replay P (new_events w w') (errno w, linker w) = Some (errno w', linker w')
            \<and> objects w' = objects w
            \<and> (\<forall>i < length rs. fst (rs ! i) \<noteq> Null \<longrightarrow> Suc i = length rs \<and> r = fst (rs ! i))
            \<and> (\<forall>i. Suc i < length rs \<longrightarrow> rs ! i = (Null, 0))
            \<and> (length rs < length hs \<longrightarrow> rs \<noteq> [] \<and> last rs \<noteq> (Null, 0))
            \<and> ((\<forall>x \<in> set rs. fst x = Null) \<longrightarrow> r = Null)"
    by (intro exI[of _ r] exI[of _ w'] exI[of _ rs] conjI c1 run(2) c3 c4 run(6) c6 c7 c8 c9)
next
  show "\<forall>A B X w1 w2. hs = [A, B] \<and> dlsym P A symbol w = (Null, w1) \<and> errno w1 = 0
               \<and> dlsym P B symbol w1 = (X, w2)
               \<longrightarrow> ctypes_dlsym P handle symbol w = Some (X, w2)"
    using assms unfolding ctypes_dlsym_multiple[OF assms]
    by (auto simp: multiple_handle_def split: cptr.splits)
qed

theorem multiple_sym_first_match_witness:
  "multiple_handle loaded_world (Ptr 11) [Ptr 102, Ptr 103]
   \<and> dlsym demo (Ptr 102) ''s'' loaded_world
       = (Null, loaded_world\<lparr>trace := [DlSym (Ptr 102) ''s'' Null 0]\<rparr>)
   \<and> ctypes_dlsym demo (Ptr 11) ''s'' loaded_world
       = Some (Ptr 7, loaded_world\<lparr>trace := [DlSym (Ptr 102) ''s'' Null 0,
                                                DlSym (Ptr 103) ''s'' (Ptr 7) 0]\<rparr>)
   \<and> replay demo [DlSym (Ptr 102) ''s'' Null 0, DlSym (Ptr 103) ''s'' (Ptr 7) 0] (0, 4)
       = Some (0, 4)
   \<and> ctypes_dlsym demo (Ptr 11) ''s'' three_world
       = Some (Ptr 7, three_world\<lparr>trace := [DlSym (Ptr 102) ''s'' Null 0,
                                               DlSym (Ptr 104) ''s'' Null 0,
                                               DlSym (Ptr 103) ''s'' (Ptr 7) 0]\<rparr>)"
  using multiple_sym_first_match[of loaded_world "Ptr 11" "[Ptr 102, Ptr 103]" demo "''s''"]
  by (simp add: multiple_handle_def loaded_world_def three_world_def demo_def dlsym_def
                native_def ctypes_dlsym_def multiple_sym_def)

text \<open>
  C4. When a member's native lookup yields null and leaves errno set, the lookup on the
  aggregate ends at that member: the probe is the last native call of the lookup, the
  result is null, errno holds that member's error, and no later member is probed.
\<close>

theorem multiple_sym_error_stops:
  assumes "multiple_handle w handle hs"
  shows "\<exists>r w'. ctypes_dlsym P handle symbol w = Some (r, w')
           \<and> (\<forall>i h e. i < length (new_events w w')
                  \<and> new_events w w' ! i = DlSym h symbol Null e \<and> e \<noteq> 0
                \<longrightarrow> r = Null \<and> errno w' = e \<and> Suc i = length (new_events w w')
                    \<and> i < length hs \<and> h = hs ! i)"
proof -
  from assms have nn: "Null \<notin> set hs"
    by (auto simp: multiple_handle_def split: cptr.splits)
  from sym_members_run[OF nn, of P "[]" symbol w] obtain r w' rs where
    run: "sym_members P (map Some hs @ [Some Null]) symbol w = Some (r, w')"
         "length rs \<le> length hs"
         "trace w' = trace w @ sym_events symbol hs rs"
         "\<forall>x \<in> set (butlast rs). x = (Null, 0)"
         "if rs \<noteq> [] \<and> last rs \<noteq> (Null, 0) then r = fst (last rs)
          else length rs = length hs \<and> r = Null"
         "errno w' = (if rs = [] then errno w else snd (last rs))"
    by blast
  have ev: "new_events w w' = sym_events symbol hs rs"
    by (simp add: new_events_def run(3))
  have len: "length (sym_events symbol hs rs) = length rs"
    using run(2) by (simp add: sym_events_def)
  have "r = Null \<and> errno w' = e \<and> Suc i = length (new_events w w') \<and> i < length hs \<and> h = hs ! i"
    if i: "i < length (new_events w w')" "new_events w w' ! i = DlSym h symbol Null e" "e \<noteq> 0"
    for i h e
  proof -
    from i(1) have il: "i < length rs" by (simp add: ev len)
    with run(2) have ih: "i < length hs" by simp
    from i(2) il ih have rsi: "rs ! i = (Null, e)" and h: "h = hs ! i"
      by (auto simp: ev sym_events_def split: prod.splits)
    have "\<not> i < length (butlast rs)"
    proof
      assume b: "i < length (butlast rs)"
      then have "butlast rs ! i \<in> set (butlast rs)" by simp
      with run(4) have "butlast rs ! i = (Null, 0)" by blast
      with b rsi i(3) show False by (simp add: nth_butlast)
    qed
    with il have l: "Suc i = length rs" by simp
    then have "last rs = rs ! i" using il
      by (metis diff_Suc_1 last_conv_nth length_0_conv nat.simps(3))
    with rsi i(3) run(5,6) l ih h show ?thesis by (auto simp: ev len split: if_splits)
  qed
  with run(1) show ?thesis
    unfolding ctypes_dlsym_multiple[OF assms] by blast
qed

theorem multiple_sym_error_stops_witness:
  "multiple_handle loaded_world (Ptr 11) [Ptr 102, Ptr 103]
   \<and> fst (dlsym_n demo (Ptr 103) ''t'' 4) = Ptr 7
   \<and> ctypes_dlsym demo (Ptr 11) ''t'' loaded_world
       = Some (Null, loaded_world\<lparr>errno := 5, trace := [DlSym (Ptr 102) ''t'' Null 5]\<rparr>)"
  using multiple_sym_error_stops[of loaded_world "Ptr 11" "[Ptr 102, Ptr 103]" demo "''t''"]
  by (simp add: multiple_handle_def loaded_world_def demo_def dlsym_def native_def
                ctypes_dlsym_def multiple_sym_def)






text \<open>
  C8, as amended. A null handle given to \<^verbatim>\<open>ctypes_dlclose\<close> or \<^verbatim>\<open>ctypes_dlsym\<close> is not
  dereferenced and not rejected by this code: like the reserved scope values it is
  forwarded to the native close or lookup, whose result is returned. Only the
  per-variant operations behind the facade answer a null handle with EINVAL.
\<close>

theorem null_handle_forwarded:
  "ctypes_dlclose P Null w = Some (dlclose P Null w)
   \<and> ctypes_dlsym P Null symbol w = Some (dlsym P Null symbol w)
   \<and> objects (snd (dlclose P Null w)) = objects w
   \<and> objects (snd (dlsym P Null symbol w)) = objects w
   \<and> new_events w (snd (dlclose P Null w)) = [DlClose Null (fst (dlclose_n P Null (linker w)))]
   \<and> (\<exists>e. new_events w (snd (dlsym P Null symbol w))
             = [DlSym Null symbol (fst (dlsym_n P Null symbol (linker w))) e])
   \<and> single_close P Null w = Some (EINVAL, w\<lparr>errno := EINVAL\<rparr>)
   \<and> multiple_close P Null w = Some (EINVAL, w\<lparr>errno := EINVAL\<rparr>)
   \<and> single_sym P Null symbol w = Some (Null, w\<lparr>errno := EINVAL\<rparr>)
   \<and> multiple_sym P Null symbol w = Some (Null, w\<lparr>errno := EINVAL\<rparr>)"
  by (simp add: ctypes_dlclose_def ctypes_dlsym_def dlclose_def dlsym_def native_def
                new_events_def single_close_def multiple_close_def single_sym_def
                multiple_sym_def split: prod.splits)

text \<open>
  C8 as stated fails: on the sample platform the native close accepts a null handle and
  the native lookup resolves in it, and the facade reports exactly that.
\<close>

theorem null_handle_counterexample:
  "ctypes_dlclose demo Null loaded_world
     = Some (0, loaded_world\<lparr>trace := [DlClose Null 0]\<rparr>)
   \<and> ctypes_dlsym demo Null ''s'' loaded_world
     = Some (Ptr 9, loaded_world\<lparr>trace := [DlSym Null ''s'' (Ptr 9) 0]\<rparr>)"
  by (simp add: ctypes_dlclose_def ctypes_dlsym_def dlclose_def dlsym_def native_def
                demo_def loaded_world_def)

section \<open>Recognising a member specification\<close>

lemma strchr_None: "strchr s c = None \<longleftrightarrow> c \<notin> set s"
  by (induction s) auto

lemma strchr_Some:
  "strchr s c = Some i \<longleftrightarrow> i < length s \<and> s ! i = c \<and> (\<forall>j < i. s ! j \<noteq> c)"
proof (induction s arbitrary: i)
  case Nil
  show ?case by simp
next
  case (Cons x xs)
  show ?case
  proof (cases "x = c")
    case True
    then show ?thesis by (cases i) auto
  next
    case False
    show ?thesis
    proof (cases i)
      case 0
      with False show ?thesis by auto
    next
      case (Suc k)
      have "(\<forall>j < Suc k. (x # xs) ! j \<noteq> c) \<longleftrightarrow> (\<forall>j < k. xs ! j \<noteq> c)"
        using False by (auto simp: less_Suc_eq_0_disj)
      with False Suc Cons.IH[of k] show ?thesis by auto
    qed
  qed
qed

lemma strrchr_None: "strrchr s c = None \<longleftrightarrow> c \<notin> set s"
  by (induction s) (auto split: option.splits)

lemma nth_Cons_above:
  "(\<forall>j. Suc m < j \<and> j < Suc (length xs) \<longrightarrow> (x # xs) ! j \<noteq> c)
     \<longleftrightarrow> (\<forall>j. m < j \<and> j < length xs \<longrightarrow> xs ! j \<noteq> c)"
proof
  assume l: "\<forall>j. Suc m < j \<and> j < Suc (length xs) \<longrightarrow> (x # xs) ! j \<noteq> c"
  show "\<forall>j. m < j \<and> j < length xs \<longrightarrow> xs ! j \<noteq> c"
  proof (intro allI impI)
    fix j assume "m < j \<and> j < length xs"
    with l[rule_format, of "Suc j"] show "xs ! j \<noteq> c" by simp
  qed
next
  assume r: "\<forall>j. m < j \<and> j < length xs \<longrightarrow> xs ! j \<noteq> c"
  show "\<forall>j. Suc m < j \<and> j < Suc (length xs) \<longrightarrow> (x # xs) ! j \<noteq> c"
  proof (intro allI impI)
    fix j assume j: "Suc m < j \<and> j < Suc (length xs)"
    then obtain k where "j = Suc k" by (cases j) auto
    with j r[rule_format, of k] show "(x # xs) ! j \<noteq> c" by simp
  qed
qed

lemma nth_Cons_tail:
  "(\<forall>j. 0 < j \<and> j < Suc (length xs) \<longrightarrow> (x # xs) ! j \<noteq> c) \<longleftrightarrow> c \<notin> set xs"
proof
  assume l: "\<forall>j. 0 < j \<and> j < Suc (length xs) \<longrightarrow> (x # xs) ! j \<noteq> c"
  show "c \<notin> set xs"
  proof
    assume "c \<in> set xs"
    then obtain k where "k < length xs" "xs ! k = c" by (auto simp: in_set_conv_nth)
    with l[rule_format, of "Suc k"] show False by simp
  qed
next
  assume r: "c \<notin> set xs"
  show "\<forall>j. 0 < j \<and> j < Suc (length xs) \<longrightarrow> (x # xs) ! j \<noteq> c"
  proof (intro allI impI)
    fix j assume j: "0 < j \<and> j < Suc (length xs)"
    then obtain k where "j = Suc k" by (cases j) auto
    with j r show "(x # xs) ! j \<noteq> c" by auto
  qed
qed

lemma strrchr_Some:
  "strrchr s c = Some i \<longleftrightarrow>
     i < length s \<and> s ! i = c \<and> (\<forall>j. i < j \<and> j < length s \<longrightarrow> s ! j \<noteq> c)"
proof (induction s arbitrary: i)
  case Nil
  show ?case by simp
next
  case (Cons x xs)
  show ?case
  proof (cases i)
    case 0
    show ?thesis
    proof (cases "strrchr xs c")
      case None
      then have "c \<notin> set xs" by (simp add: strrchr_None)
      with 0 None nth_Cons_tail[of xs x c] show ?thesis by auto
    next
      case (Some k)
      then have "c \<in> set xs" using strrchr_None[of xs c] by auto
      with 0 Some nth_Cons_tail[of xs x c] show ?thesis by auto
    qed
  next
    case (Suc m)
    show ?thesis
    proof (cases "strrchr xs c")
      case None
      then have "c \<notin> set xs" by (simp add: strrchr_None)
      then have "m < length xs \<Longrightarrow> xs ! m \<noteq> c" by auto
      with None Suc show ?thesis by auto
    next
      case (Some k)
      with Suc Cons.IH[of m] nth_Cons_above[of m xs x c] show ?thesis by auto
    qed
  qed
qed

lemma member_spec_Some:
  "member_spec path = Some i \<longleftrightarrow>
     path \<noteq> [] \<and> last path = CHR '')''
     \<and> 0 < i \<and> i < length path \<and> path ! i = CHR ''(''
     \<and> (\<forall>j. i < j \<and> j < length path \<longrightarrow> path ! j \<noteq> CHR ''('')
     \<and> i + 2 < length path
     \<and> (\<forall>j. i < j \<and> j < length path - 1 \<longrightarrow> path ! j \<noteq> CHR ''/'')"
  (is "?L \<longleftrightarrow> ?R")
proof
  assume ?L
  then obtain c where c: "strrchr path (CHR '')'') = Some c" "strlen (drop c path) = 1"
    and i: "strrchr path (CHR ''('') = Some i" "0 < i" "strlen (drop i path) > 2"
           "strchr (drop i path) (CHR ''/'') = None"
    by (auto simp: member_spec_def split: option.splits if_splits)
  from c have cl: "c < length path" "path ! c = CHR '')''" "Suc c = length path"
    by (auto simp: strrchr_Some strlen_def)
  then have ne: "path \<noteq> []" by auto
  from cl have "length path - 1 = c" by simp
  with cl ne have la: "last path = CHR '')''" by (simp add: last_conv_nth)
  from i(1) have i1: "i < length path" "path ! i = CHR ''(''"
    "\<forall>j. i < j \<and> j < length path \<longrightarrow> path ! j \<noteq> CHR ''(''"
    by (auto simp: strrchr_Some)
  from i(3) have i3: "i + 2 < length path" by (simp add: strlen_def)
  from i(4) have ns: "CHR ''/'' \<notin> set (drop i path)" by (simp add: strchr_None)
  have "\<forall>j. i < j \<and> j < length path - 1 \<longrightarrow> path ! j \<noteq> CHR ''/''"
  proof (intro allI impI)
    fix j assume j: "i < j \<and> j < length path - 1"
    then have "j - i < length path - i" by arith
    then have "j - i < length (drop i path)" by simp
    then have "drop i path ! (j - i) \<in> set (drop i path)" by (rule nth_mem)
    then have m: "drop i path ! (j - i) \<noteq> CHR ''/''" using ns by metis
    from j have le: "i \<le> length path" by arith
    have "drop i path ! (j - i) = path ! (i + (j - i))" using le by (rule nth_drop)
    also from j have "i + (j - i) = j" by arith
    finally have "drop i path ! (j - i) = path ! j" .
    with m show "path ! j \<noteq> CHR ''/''" by simp
  qed
  with ne la i(2) i1 i3 show ?R by blast
next
  assume r: ?R
  then have lastn: "length path - 1 < length path" "path ! (length path - 1) = CHR '')''"
    by (auto simp: last_conv_nth)
  then have c: "strrchr path (CHR '')'') = Some (length path - 1)"
    by (auto simp: strrchr_Some)
  from r have i: "strrchr path (CHR ''('') = Some i" by (auto simp: strrchr_Some)
  from r have sl: "\<forall>j. i < j \<and> j < length path - 1 \<longrightarrow> path ! j \<noteq> CHR ''/''" by blast
  have "CHR ''/'' \<notin> set (drop i path)"
  proof
    assume "CHR ''/'' \<in> set (drop i path)"
    then obtain k where k: "k < length path - i" "path ! (i + k) = CHR ''/''"
      by (auto simp: in_set_conv_nth)
    show False
    proof (cases "k = 0")
      case True
      with k r show False by simp
    next
      case False
      show False
      proof (cases "i + k = length path - 1")
        case True
        with k lastn show False by simp
      next
        case False
        with \<open>k \<noteq> 0\<close> k have "i < i + k \<and> i + k < length path - 1" by simp
        with sl[rule_format, of "i + k"] k show False by simp
      qed
    qed
  qed
  then have s: "strchr (drop i path) (CHR ''/'') = None" by (simp add: strchr_None)
  from r c i s show ?L
    by (auto simp: member_spec_def strlen_def)
qed


lemma member_spec_None_literal:
  "member_spec path = None \<Longrightarrow>
   ctypes_dlopen P (Ptr path) mode w = Some (single_open P (Ptr path) mode w)"
  by (simp add: ctypes_dlopen_def)

text \<open>
  C6, as amended. A path is taken as a member specification exactly when its last
  character is a closing parenthesis, its rightmost opening parenthesis is not its first
  character, the text between the two is not empty, and that text holds no slash.
  Whether the text has a non-empty segment between its commas is not examined. Every
  other path is opened as a literal path.
\<close>

theorem member_spec_recognition:
  "(member_spec path = Some i \<longleftrightarrow>
      path \<noteq> [] \<and> last path = CHR '')''
      \<and> 0 < i \<and> i < length path \<and> path ! i = CHR ''(''
      \<and> (\<forall>j. i < j \<and> j < length path \<longrightarrow> path ! j \<noteq> CHR ''('')
      \<and> i + 2 < length path
      \<and> (\<forall>j. i < j \<and> j < length path - 1 \<longrightarrow> path ! j \<noteq> CHR ''/''))
   \<and> (member_spec path = None \<longrightarrow>
        ctypes_dlopen P (Ptr path) mode w = Some (single_open P (Ptr path) mode w))"
  using member_spec_Some[of path i] member_spec_None_literal[of path P mode w] by blast

theorem member_spec_recognition_witness:
  "member_spec ''libc.a(shr.o,shr_64.o)'' = Some 6
   \<and> member_spec ''lib(x)/c.a'' = None
   \<and> ctypes_dlopen demo (Ptr ''lib(x)/c.a'') 2 fresh_world
       = Some (single_open demo (Ptr ''lib(x)/c.a'') 2 fresh_world)"
  using member_spec_recognition[of "''libc.a(shr.o,shr_64.o)''" 6 demo 2 fresh_world]
        member_spec_recognition[of "''lib(x)/c.a''" 0 demo 2 fresh_world]
  by (simp add: member_spec_def strlen_def)

text \<open>
  C6 as stated fails at \<^verbatim>\<open>a(,)\<close>: both member segments are empty, yet the path is taken
  as a member specification and two members are opened.
\<close>

theorem member_spec_counterexample:
  "member_spec ''a(,)'' = Some 1 \<and> \<not> spec_member_syntax ''a(,)''
   \<and> (case ctypes_dlopen demo (Ptr ''a(,)'') 2 fresh_world of
         None \<Rightarrow> []
       | Some (h, w') \<Rightarrow> native_opens (trace w'))
      = [(Ptr ''a()'', 262146, Ptr 102), (Ptr ''a()'', 262146, Ptr 103)]"
  by (simp add: member_spec_def spec_member_syntax_def strlen_def ctypes_dlopen_def
        multiple_open_def malloc_def native_def demo_def fresh_world_def Let_def
        strncpy_def strcpy_def poke_def c_str_def NUL_def dlopen_def set_slot_def
        free_buf_def native_opens_def open_members.simps)

text \<open>
  C7, as amended. A path without parentheses, or whose last character is not a closing
  parenthesis, goes to \<^verbatim>\<open>single_open\<close> with the path and the caller's mode unchanged. When
  the wrapper is allocated, exactly one native open is made, with that very path and
  mode; when the allocation fails, none is made and the result is null.
\<close>

theorem literal_path_single_open:
  assumes "(CHR ''('' \<notin> set path \<and> CHR '')'' \<notin> set path) \<or> path = []
           \<or> last path \<noteq> CHR '')''"
  shows "\<exists>h w'. ctypes_dlopen P (Ptr path) mode w = Some (h, w')
           \<and> (h, w') = single_open P (Ptr path) mode w
           \<and> (case fst (malloc_n P (2 * sizeof_ptr P) (linker w)) of
                 Some a \<Rightarrow> (\<exists>dlhandle. native_opens (new_events w w') = [(Ptr path, mode, dlhandle)])
               | None \<Rightarrow> native_opens (new_events w w') = [] \<and> h = Null)"
proof -
  have "member_spec path \<noteq> Some i" for i
  proof
    assume "member_spec path = Some i"
    then have ne: "path \<noteq> []" and la: "last path = CHR '')''"
      using member_spec_Some[of path i] by blast+
    then have "CHR '')'' \<in> set path" using last_in_set[of path] by simp
    with ne la assms show False by blast
  qed
  then have "member_spec path = None" by (cases "member_spec path") auto
  then have d: "ctypes_dlopen P (Ptr path) mode w = Some (single_open P (Ptr path) mode w)"
    by (rule member_spec_None_literal)
  obtain h w' where s: "single_open P (Ptr path) mode w = (h, w')"
    by (cases "single_open P (Ptr path) mode w") auto
  obtain r e l where m: "malloc_n P (2 * sizeof_ptr P) (linker w) = (r, e, l)"
    by (cases "malloc_n P (2 * sizeof_ptr P) (linker w)") auto
  have "case r of
          Some a \<Rightarrow> (\<exists>dlhandle. native_opens (new_events w w') = [(Ptr path, mode, dlhandle)])
        | None \<Rightarrow> native_opens (new_events w w') = [] \<and> h = Null"
    using s m
    by (auto simp: single_open_def malloc_def dlopen_def native_def free_def new_events_def
          native_opens_def split: option.splits prod.splits if_splits)
  with d s m show ?thesis by simp
qed

theorem literal_path_single_open_witness:
  "last ''lib(x)/c.a'' \<noteq> CHR '')''
   \<and> ctypes_dlopen demo (Ptr ''lib(x)/c.a'') 2 fresh_world
       = Some (Ptr 10, fresh_world\<lparr>linker := 2, objects := [10 \<mapsto> SingleObject (Ptr 101)],
                 trace := [Malloc 16 (Some 10), DlOpen (Ptr ''lib(x)/c.a'') 2 (Ptr 101)]\<rparr>)"
  using literal_path_single_open[of "''lib(x)/c.a''" demo 2 fresh_world]
  by (simp add: ctypes_dlopen_def member_spec_def strlen_def single_open_def malloc_def
        dlopen_def native_def demo_def fresh_world_def)

text \<open>
  C7 as stated fails when the allocator is exhausted: no native open is made.
\<close>

theorem literal_path_counterexample:
  "ctypes_dlopen demo (Ptr ''libc.a'') 2 exhausted_world
     = Some (Null, exhausted_world\<lparr>linker := 51, trace := [Malloc 16 None]\<rparr>)"
  by (simp add: ctypes_dlopen_def member_spec_def single_open_def malloc_def native_def
        demo_def exhausted_world_def)

section \<open>The opening loop\<close>

lemma split_members_no_comma: "CHR '','' \<notin> set s \<Longrightarrow> split_members s = [s]"
  by (induction s) auto

lemma split_members_comma:
  "strchr s (CHR '','') = Some j \<Longrightarrow>
   split_members s = take j s # split_members (drop (Suc j) s)"
proof (induction s arbitrary: j)
  case Nil
  then show ?case by simp
next
  case (Cons c cs)
  show ?case
  proof (cases "c = CHR '',''")
    case True
    with Cons.prems show ?thesis by simp
  next
    case False
    with Cons.prems obtain k where k: "strchr cs (CHR '','') = Some k" "j = Suc k"
      by auto
    from Cons.IH[OF k(1)] False k(2) show ?thesis by simp
  qed
qed

lemma strchr_append_other:
  "c \<notin> set t \<Longrightarrow> strchr (s @ t) c = strchr s c"
  by (induction s) (auto simp: strchr_None)

lemma write_member:
  assumes "memberbuf + n + 2 \<le> length pathbuf" and "n \<le> length src"
  shows "strncpy pathbuf memberbuf src n
           = Some (take memberbuf pathbuf @ take n src @ drop (memberbuf + n) pathbuf)"
    and "strcpy (take memberbuf pathbuf @ take n src @ drop (memberbuf + n) pathbuf)
           (n + memberbuf) '')''
           = Some (take memberbuf pathbuf @ take n src @ '')'' @ NUL
                     # drop (memberbuf + n + 2) pathbuf)"
proof -
  show "strncpy pathbuf memberbuf src n
           = Some (take memberbuf pathbuf @ take n src @ drop (memberbuf + n) pathbuf)"
    using assms by (simp add: strncpy_def poke_def min_def)
  let ?b1 = "take memberbuf pathbuf @ take n src @ drop (memberbuf + n) pathbuf"
  have l: "length ?b1 = length pathbuf" using assms by (simp add: min_def)
  have t: "take (n + memberbuf) ?b1 = take memberbuf pathbuf @ take n src"
    using assms by (simp add: min_def)
  have d: "drop (n + memberbuf + 2) ?b1 = drop (memberbuf + n + 2) pathbuf"
    using assms by (simp add: min_def add.commute)
  show "strcpy ?b1 (n + memberbuf) '')''
           = Some (take memberbuf pathbuf @ take n src @ '')'' @ NUL
                     # drop (memberbuf + n + 2) pathbuf)"
    unfolding strcpy_def poke_def using assms l t d by simp
qed

lemma c_str_member:
  assumes "NUL \<notin> set a" and "NUL \<notin> set b"
  shows "c_str (a @ b @ '')'' @ NUL # rest) = Some (a @ b @ '')'')"
  using assms by (simp add: c_str_def takeWhile_append NUL_def)


lemma open_list_Nil: "open_list P pre loaded [] memberno mode = (\<lambda>w. Some (False, w))"
  by (rule ext) simp

lemma open_members_list:
  assumes "NUL \<notin> set path" and "last path = CHR '')''"
      and "memberbuf \<le> members" and "members < length path"
      and "length pathbuf = length path + 1"
      and "take memberbuf pathbuf = take memberbuf path"
  shows "open_members P path members pathbuf memberbuf loaded memberno mode w
           = open_list P (take memberbuf path) loaded
               (split_members (butlast (drop members path))) memberno mode w"
  using assms
proof (induction "length path - members" arbitrary: members pathbuf memberno w rule: less_induct)
  case less
  let ?rest = "drop members path"
  let ?pre = "take memberbuf path"
  from less.prems have ne: "?rest \<noteq> []" by simp
  have "last ?rest = CHR '')''" using less.prems(2,4) by simp
  with ne obtain body where rest: "?rest = body @ '')''"
    by (metis append_butlast_last_id)
  then have tx: "butlast ?rest = body" by simp
  have "length ?rest = length path - members" by simp
  then have lt: "Suc (length body) = length path - members" by (simp add: rest)
  have nul_pre: "NUL \<notin> set (take memberbuf pathbuf)"
    using less.prems(1,6) by (metis in_set_takeD)
  have "NUL \<notin> set ?rest"
    using less.prems(1) by (metis in_set_dropD)
  then have nul_text: "NUL \<notin> set body" by (simp add: rest)
  have sl: "strlen ?rest \<noteq> 0" using ne by (simp add: strlen_def)
  have sc: "strchr ?rest (CHR '','') = strchr body (CHR '','')"
    by (simp add: rest strchr_append_other)
  show ?case
  proof (cases "strchr body (CHR '','')")
    case None
    then have "CHR '','' \<notin> set body" by (simp add: strchr_None)
    then have sp: "split_members body = [body]" by (rule split_members_no_comma)
    let ?n = "members + strlen ?rest - 1"
    have n: "?n - members = length body" by (simp add: strlen_def rest)
    have tk: "take (length body) ?rest = body" by (simp add: rest)
    have bound: "memberbuf + length body + 2 \<le> length pathbuf" "length body \<le> length ?rest"
      using less.prems(3,4,5) lt by simp_all
    note wm = write_member[OF bound, unfolded tk]
    note cs = c_str_member[OF nul_pre nul_text, of "drop (memberbuf + length body + 2) pathbuf"]
    have "?n = length path - 1" using less.prems(4) by (simp add: strlen_def)
    then have "path ! ?n = last path" using less.prems(4)
      by (metis last_conv_nth length_0_conv less_nat_zero_code)
    then have last: "path ! ?n \<noteq> CHR '',''" using less.prems(2) by simp
    show ?thesis
      apply (subst open_members.simps)
      apply (simp only: sl if_False sc None option.case Let_def n wm cs last tx sp
               open_list.simps open_list_Nil)
      apply (simp only: less.prems(6))
      done
  next
    case (Some j)
    then have jt: "j < length body" by (simp add: strchr_Some)
    from Some have sp: "split_members body = take j body # split_members (drop (Suc j) body)"
      by (rule split_members_comma)
    have tk: "take j ?rest = take j body" using jt by (simp add: rest)
    have n: "members + j - members = j" by simp
    have bound: "memberbuf + j + 2 \<le> length pathbuf" "j \<le> length ?rest"
      using less.prems(3,4,5) lt jt by simp_all
    note wm = write_member[OF bound, unfolded tk]
    have nul_member: "NUL \<notin> set (take j body)"
      using nul_text by (metis in_set_takeD)
    let ?pb2 = "take memberbuf pathbuf @ take j body @ '')'' @ NUL
                  # drop (memberbuf + j + 2) pathbuf"
    note cs = c_str_member[OF nul_pre nul_member, of "drop (memberbuf + j + 2) pathbuf"]
    have "?rest ! j = CHR '',''" using Some jt by (simp add: rest nth_append strchr_Some)
    then have comma: "path ! (members + j) = CHR '',''"
      using less.prems(4) by simp
    have nxt: "members + j + 1 < length path" using jt lt by simp
    have l2: "length ?pb2 = length path + 1"
      using bound less.prems(5) jt by (simp add: min_def)
    have t2: "take memberbuf ?pb2 = take memberbuf path"
      using less.prems(5,6) bound by (simp add: min_def)
    have "drop (members + j + 1) path = drop (Suc j) ?rest" by (simp add: add.commute)
    also have "\<dots> = drop (Suc j) body @ '')''" using jt by (simp add: rest)
    finally have dr: "butlast (drop (members + j + 1) path) = drop (Suc j) body" by simp
    have less': "length path - (members + j + 1) < length path - members"
      using less.prems(4) by simp
    have le': "memberbuf \<le> members + j + 1" using less.prems(3) by simp
    have ih: "open_members P path (members + j + 1) ?pb2 memberbuf loaded k mode v
           = open_list P ?pre loaded (split_members (drop (Suc j) body)) k mode v" for k v
      using less.hyps[OF less' less.prems(1,2) le' nxt l2 t2, of k v]
      by (simp only: dr)
    have ih': "open_members P path (members + j + 1) ?pb2 memberbuf loaded k mode
           = open_list P ?pre loaded (split_members (drop (Suc j) body)) k mode" for k
      by (rule ext) (rule ih)
    show ?thesis
      apply (subst open_members.simps)
      apply (simp only: sl if_False sc Some option.case Let_def n wm cs comma if_True tx sp
               open_list.simps ih ih')
      apply (simp only: less.prems(6) simp_thms if_True)
      done
  qed
qed


lemma dlopen_effect:
  "\<exists>h e s. dlopen P path mode w =
      (h, w\<lparr>errno := e, linker := s, trace := trace w @ [DlOpen path mode h]\<rparr>)"
proof -
  obtain h e s where n: "dlopen_n P path mode (linker w) = (h, e, s)"
    by (cases "dlopen_n P path mode (linker w)") auto
  show ?thesis
    by (rule exI[of _ h], rule exI[of _ "errno_after e (errno w)"], rule exI[of _ s])
       (simp add: dlopen_def native_def n)
qed

lemma malloc_effect:
  "\<exists>r e s. malloc P n w =
      (r, w\<lparr>errno := e, linker := s, trace := trace w @ [Malloc n r]\<rparr>)
      \<and> r = fst (malloc_n P n (linker w))"
proof -
  obtain r e s where n: "malloc_n P n (linker w) = (r, e, s)"
    by (cases "malloc_n P n (linker w)") auto
  show ?thesis
    by (rule exI[of _ r], rule exI[of _ "errno_after e (errno w)"], rule exI[of _ s])
       (simp add: malloc_def native_def n)
qed

lemma set_slot_Some:
  "objects w a = Some (MultipleObjects slots) \<Longrightarrow> i < length slots \<Longrightarrow>
   set_slot a i h w
     = Some (w\<lparr>objects := (objects w)(a \<mapsto> MultipleObjects (slots[i := Some h]))\<rparr>)"
  by (simp add: set_slot_def)

lemma open_list_run:
  assumes "objects w loaded = Some (MultipleObjects slots)"
      and "memberno + length names < length slots"
      and "names = [] \<longrightarrow> slots ! memberno = Some Null"
  shows "\<exists>broke w' hs. open_list P pre loaded names memberno mode w = Some (broke, w')
           \<and> length hs \<le> length names
           \<and> trace w' = trace w @ open_events pre mode names hs
           \<and> Null \<notin> set (butlast hs)
           \<and> (broke \<longleftrightarrow> hs \<noteq> [] \<and> last hs = Null)
           \<and> (\<not> broke \<longrightarrow> length hs = length names)
           \<and> objects w' = (objects w)(loaded \<mapsto> MultipleObjects
                 (take memberno slots @ map Some (if broke then butlast hs else hs)
                    @ Some Null
                    # drop (memberno + length (if broke then butlast hs else hs) + 1) slots))"
  using assms
proof (induction names arbitrary: w slots memberno)
  case Nil
  then have k: "memberno < length slots" "slots ! memberno = Some Null" by simp_all
  then have "take memberno slots @ Some Null # drop (memberno + 1) slots = slots"
    by (metis Suc_eq_plus1 id_take_nth_drop)
  then have "(objects w)(loaded \<mapsto> MultipleObjects
                (take memberno slots @ Some Null # drop (memberno + 1) slots)) = objects w"
    using Nil.prems(1) by (simp add: fun_upd_idem)
  then show ?case
    by (intro exI[of _ False] exI[of _ w] exI[of _ "[]"]) (simp add: open_events_def)
next
  case (Cons m ms)
  let ?p = "Ptr (pre @ m @ '')'')"
  obtain h e s where d: "dlopen P ?p mode w =
      (h, w\<lparr>errno := e, linker := s, trace := trace w @ [DlOpen ?p mode h]\<rparr>)"
    using dlopen_effect[of P ?p mode w] by auto
  let ?w1 = "w\<lparr>errno := e, linker := s, trace := trace w @ [DlOpen ?p mode h]\<rparr>"
  have o1: "objects ?w1 loaded = Some (MultipleObjects slots)" using Cons.prems(1) by simp
  have k: "memberno < length slots" "memberno + 1 < length slots" using Cons.prems(2) by simp_all
  let ?s2 = "slots[memberno := Some h]"
  let ?w2 = "?w1\<lparr>objects := (objects ?w1)(loaded \<mapsto> MultipleObjects ?s2)\<rparr>"
  have s2: "set_slot loaded memberno h ?w1 = Some ?w2"
    using set_slot_Some[OF o1 k(1)] .
  show ?case
  proof (cases "h = Null")
    case True
    have "take memberno slots @ Some Null # drop (memberno + 1) slots = slots[memberno := Some Null]"
      using k(1) by (simp add: upd_conv_take_nth_drop)
    then show ?thesis
      using d s2 True
      by (intro exI[of _ True] exI[of _ ?w2] exI[of _ "[Null]"]) (simp add: open_events_def)
  next
    case False
    let ?s3 = "?s2[memberno + 1 := Some Null]"
    let ?w3 = "?w2\<lparr>objects := (objects ?w2)(loaded \<mapsto> MultipleObjects ?s3)\<rparr>"
    have o2: "objects ?w2 loaded = Some (MultipleObjects ?s2)" by simp
    have s3: "set_slot loaded (memberno + 1) Null ?w2 = Some ?w3"
      using set_slot_Some[OF o2, of "memberno + 1" Null] k(2) by simp
    have o3: "objects ?w3 loaded = Some (MultipleObjects ?s3)" by simp
    have b3: "memberno + 1 + length ms < length ?s3" using Cons.prems(2) by simp
    have n3: "ms = [] \<longrightarrow> ?s3 ! (memberno + 1) = Some Null" using k(2) by simp
    from Cons.IH[OF o3 b3 n3] obtain broke w' hs where
      ih: "open_list P pre loaded ms (memberno + 1) mode ?w3 = Some (broke, w')"
          "length hs \<le> length ms"
          "trace w' = trace ?w3 @ open_events pre mode ms hs"
          "Null \<notin> set (butlast hs)"
          "broke \<longleftrightarrow> hs \<noteq> [] \<and> last hs = Null"
          "\<not> broke \<longrightarrow> length hs = length ms"
          "objects w' = (objects ?w3)(loaded \<mapsto> MultipleObjects
                 (take (memberno + 1) ?s3 @ map Some (if broke then butlast hs else hs)
                    @ Some Null
                    # drop (memberno + 1 + length (if broke then butlast hs else hs) + 1) ?s3))"
      by blast
    let ?good = "if broke then butlast hs else hs"
    have good: "(if broke then butlast (h # hs) else h # hs) = h # ?good"
      using ih(5) by simp
    have tk: "take (memberno + 1) ?s3 = take memberno slots @ [Some h]"
      using k by (simp add: take_Suc_conv_app_nth)
    have dr: "drop (memberno + 1 + length ?good + 1) ?s3
                = drop (memberno + length (h # ?good) + 1) slots"
      by simp
    have run: "open_list P pre loaded (m # ms) memberno mode w = Some (broke, w')"
      using d s2 s3 ih(1) False by simp
    have ob: "objects w' = (objects w)(loaded \<mapsto> MultipleObjects
                 (take memberno slots @ map Some (h # ?good) @ Some Null
                    # drop (memberno + length (h # ?good) + 1) slots))"
      unfolding ih(7) tk dr by simp
    show ?thesis
      apply (intro exI[of _ broke] exI[of _ w'] exI[of _ "h # hs"])
      unfolding good
      using run ih(2,3,4,5,6) ob False
      by (auto simp: open_events_def)
  qed
qed


lemma count_members_commas:
  "count_members s n = n + length (filter (\<lambda>c. c = CHR '','') s)"
  by (induction s arbitrary: n) auto

lemma split_members_not_Nil: "split_members s \<noteq> []"
  by (induction s) auto

lemma length_split_members:
  "length (split_members s) = Suc (length (filter (\<lambda>c. c = CHR '','') s))"
proof (induction s)
  case Nil
  show ?case by simp
next
  case (Cons c cs)
  have "length (tl (split_members cs)) = length (split_members cs) - 1" by simp
  moreover have "length (split_members cs) \<noteq> 0" using split_members_not_Nil[of cs] by simp
  ultimately show ?case using Cons.IH by auto
qed

lemma count_members_split:
  "count_members (body @ '')'') 1 = length (split_members body)"
  by (simp add: count_members_commas length_split_members)

lemma multiple_open_cases:
  assumes nul: "NUL \<notin> set path" and last: "last path = CHR '')''"
      and mem: "members < length path"
  obtains
    (no_buffer) w' where
      "multiple_open P path members mode w = Some (Null, w')"
      "new_events w w' = [Malloc (strlen path + 1) None]"
      "objects w' = objects w"
  | (no_aggregate) b n w' where
      "multiple_open P path members mode w = Some (Null, w')"
      "new_events w w' = [Malloc (strlen path + 1) (Some b), Malloc n None, Free b]"
      "objects w' = objects w"
  | (broke) b n a hs rs w' where
      "multiple_open P path members mode w = Some (Null, w')"
      "new_events w w' =
         [Malloc (strlen path + 1) (Some b), Malloc n (Some a)]
         @ open_events (take members path) mode
             (split_members (butlast (drop members path))) (hs @ [Null])
         @ close_events hs rs @ [Free a, Free b]"
      "Null \<notin> set hs"
      "length hs < length (split_members (butlast (drop members path)))"
      "length rs = length hs"
      "objects w' = (objects w)(a := None)"
      "map_option snd (replay P (new_events w w') (errno w, linker w)) = Some (linker w')"
  | (opened) b n a hs w' where
      "multiple_open P path members mode w = Some (Ptr a, w')"
      "new_events w w' =
         [Malloc (strlen path + 1) (Some b), Malloc n (Some a)]
         @ open_events (take members path) mode
             (split_members (butlast (drop members path))) hs
         @ [Free b]"
      "Null \<notin> set hs"
      "length hs = length (split_members (butlast (drop members path)))"
      "objects w' = (objects w)(a \<mapsto> MultipleObjects (map Some hs @ [Some Null]))"
proof -
  let ?names = "split_members (butlast (drop members path))"
  let ?pre = "take members path"
  let ?n1 = "strlen path + 1"
  obtain r1 e1 s1 where m1: "malloc P ?n1 w =
      (r1, w\<lparr>errno := e1, linker := s1, trace := trace w @ [Malloc ?n1 r1]\<rparr>)"
    using malloc_effect[of P ?n1 w] by auto
  show thesis
  proof (cases r1)
    case None
    let ?w1 = "w\<lparr>errno := e1, linker := s1, trace := trace w @ [Malloc ?n1 None]\<rparr>"
    have "multiple_open P path members mode w = Some (Null, ?w1)"
      using m1 None by (simp add: multiple_open_def)
    moreover have "new_events w ?w1 = [Malloc ?n1 None]"
      by (simp add: new_events_def)
    ultimately show thesis using no_buffer by simp
  next
    case (Some b)
    let ?w1 = "w\<lparr>errno := e1, linker := s1, trace := trace w @ [Malloc ?n1 (Some b)]\<rparr>"
    have m1': "malloc P ?n1 w = (Some b, ?w1)" using m1 Some by simp
    let ?N = "count_members (drop members path) 1"
    let ?n2 = "2 * sizeof_ptr P + ?N * sizeof_ptr P"
    obtain r2 e2 s2 where m2: "malloc P ?n2 ?w1 =
        (r2, ?w1\<lparr>errno := e2, linker := s2, trace := trace ?w1 @ [Malloc ?n2 r2]\<rparr>)"
      using malloc_effect[of P ?n2 ?w1] by auto
    show thesis
    proof (cases r2)
      case None
      let ?w2 = "?w1\<lparr>errno := e2, linker := s2, trace := trace ?w1 @ [Malloc ?n2 None]\<rparr>"
      have m2': "malloc P ?n2 ?w1 = (None, ?w2)" using m2 None by simp
      have "multiple_open P path members mode w = Some (Null, free_buf P b ?w2)"
        by (simp only: multiple_open_def Let_def m1' m2' prod.case option.case)
      moreover have "new_events w (free_buf P b ?w2)
                       = [Malloc ?n1 (Some b), Malloc ?n2 None, Free b]"
        by (simp add: new_events_def free_buf_def)
      moreover have "objects (free_buf P b ?w2) = objects w" by (simp add: free_buf_def)
      ultimately show thesis using no_aggregate by blast
    next
      case (Some a)
      let ?w2 = "?w1\<lparr>errno := e2, linker := s2, trace := trace ?w1 @ [Malloc ?n2 (Some a)]\<rparr>"
      have m2': "malloc P ?n2 ?w1 = (Some a, ?w2)" using m2 Some by simp
      from mem have ne: "drop members path \<noteq> []" by simp
      have "last (drop members path) = CHR '')''" using last mem by simp
      with ne obtain body where rest: "drop members path = body @ '')''"
        by (metis append_butlast_last_id)
      then have tx: "butlast (drop members path) = body" by simp
      have N: "?N = length ?names" by (simp only: rest butlast_snoc count_members_split)
      let ?slots = "replicate (1 + ?N) None :: handle option list"
      let ?w3 = "?w2\<lparr>objects := (objects ?w2)(a \<mapsto> MultipleObjects ?slots)\<rparr>"
      have eq: "open_members P path members (path @ [NUL]) members a 0 mode ?w3
                  = open_list P ?pre a ?names 0 mode ?w3"
        by (rule open_members_list[OF nul last le_refl mem]) (use mem in simp_all)
      have o3: "objects ?w3 a = Some (MultipleObjects ?slots)" by simp
      have b3: "0 + length ?names < length ?slots" using N by simp
      have n3: "?names = [] \<longrightarrow> ?slots ! 0 = Some Null"
        using split_members_not_Nil by simp
      from open_list_run[OF o3 b3 n3, of P ?pre mode] obtain broke w4 hs where
        run: "open_list P ?pre a ?names 0 mode ?w3 = Some (broke, w4)"
             "length hs \<le> length ?names"
             "trace w4 = trace ?w3 @ open_events ?pre mode ?names hs"
             "Null \<notin> set (butlast hs)"
             "broke \<longleftrightarrow> hs \<noteq> [] \<and> last hs = Null"
             "\<not> broke \<longrightarrow> length hs = length ?names"
             "objects w4 = (objects ?w3)(a \<mapsto> MultipleObjects
                 (take 0 ?slots @ map Some (if broke then butlast hs else hs)
                    @ Some Null
                    # drop (0 + length (if broke then butlast hs else hs) + 1) ?slots))"
        by blast
      have p4: "played P w w4"
        by (rule played_trans[OF played_trans[OF played_trans[OF
              played_malloc[OF m1'] played_malloc[OF m2']] played_objects]
              open_list_played[OF run(1)]])
      have mo: "multiple_open P path members mode w =
            (if broke
             then (case multiple_close P (Ptr a) w4 of
                     None \<Rightarrow> None
                   | Some (r, w5) \<Rightarrow> Some (Null, free_buf P b w5))
             else Some (Ptr a, free_buf P b w4))"
        by (simp only: multiple_open_def Let_def m1' m2' prod.case option.case eq run(1))
      show thesis
      proof (cases broke)
        case True
        let ?good = "butlast hs"
        from True run(5) have hs: "hs = ?good @ [Null]"
          by (metis append_butlast_last_id)
        let ?junk = "drop (length ?good + 1) ?slots"
        have o4: "objects w4 a = Some (MultipleObjects (map Some ?good @ Some Null # ?junk))"
          using run(7) True by simp
        from close_members_run[OF run(4), of P ?junk 0 w4] obtain ret' w5 rs where
          cl: "close_members P (map Some ?good @ Some Null # ?junk) 0 w4 = Some (ret', w5)"
              "length rs = length ?good"
              "trace w5 = trace w4 @ close_events ?good rs"
              "objects w5 = objects w4"
          by blast
        let ?w6 = "free P a w5"
        let ?w7 = "if ret' = 0 then ?w6 else ?w6\<lparr>errno := EINVAL\<rparr>"
        have mc: "multiple_close P (Ptr a) w4 = Some (if ret' = 0 then ret' else EINVAL, ?w7)"
          using o4 cl(1) by (simp add: multiple_close_def Let_def)
        have res: "multiple_open P path members mode w = Some (Null, free_buf P b ?w7)"
          using mo True mc by simp
        have ev: "new_events w (free_buf P b ?w7) =
           [Malloc ?n1 (Some b), Malloc ?n2 (Some a)]
           @ open_events ?pre mode ?names (?good @ [Null])
           @ close_events ?good rs @ [Free a, Free b]"
          using cl(3) run(3) hs by (simp add: new_events_def free_buf_def free_def)
        have ob: "objects (free_buf P b ?w7) = (objects w)(a := None)"
          using cl(4) run(7) by (simp add: free_buf_def free_def)
        have len: "length ?good < length ?names" using run(2) hs
          by (metis length_append_singleton less_eq_Suc_le)
        have pl: "played P w w5"
          by (rule played_trans[OF p4 close_members_played[OF cl(1)]])
        have rp: "map_option snd (replay P (new_events w (free_buf P b ?w7)) (errno w, linker w))
                    = Some (linker (free_buf P b ?w7))"
          by (rule played_frees[OF pl, of _ a b]) (simp_all add: free_buf_def free_def)
        show thesis
          using broke[OF res ev run(4) len cl(2) ob rp] .
      next
        case False
        with run(6) have len: "length hs = length ?names" by simp
        then have "hs \<noteq> []" using split_members_not_Nil[of "butlast (drop members path)"] by auto
        with False run(5) have "last hs \<noteq> Null" by simp
        with run(4) \<open>hs \<noteq> []\<close> have nn: "Null \<notin> set hs"
          by (metis append_butlast_last_id Un_iff set_append empty_iff empty_set set_ConsD)
        have res: "multiple_open P path members mode w = Some (Ptr a, free_buf P b w4)"
          using mo False by simp
        have ev: "new_events w (free_buf P b w4) =
           [Malloc ?n1 (Some b), Malloc ?n2 (Some a)]
           @ open_events ?pre mode ?names hs @ [Free b]"
          using run(3) by (simp add: new_events_def free_buf_def)
        have ob: "objects (free_buf P b w4)
                    = (objects w)(a \<mapsto> MultipleObjects (map Some hs @ [Some Null]))"
          using run(7) False len N by (simp add: free_buf_def)
        show thesis
          using opened[OF res ev nn len ob] .
      qed
    qed
  qed
qed

section \<open>Opening the members of an archive\<close>

lemma native_opens_append [simp]:
  "native_opens (evs @ evs') = native_opens evs @ native_opens evs'"
  by (simp add: native_opens_def)

lemma native_opens_Cons [simp]:
  "native_opens (ev # evs) =
     (case ev of DlOpen path mode h \<Rightarrow> [(path, mode, h)] | _ \<Rightarrow> []) @ native_opens evs"
  by (simp add: native_opens_def)

lemma native_opens_Nil [simp]: "native_opens [] = []"
  by (simp add: native_opens_def)

lemma native_opens_open_events [simp]:
  "native_opens (open_events pre mode names hs)
     = map (\<lambda>(m, h). (Ptr (pre @ m @ '')''), mode, h)) (zip names hs)"
  by (induction names hs rule: list_induct2') (simp_all add: open_events_def)

lemma native_opens_close_events [simp]: "native_opens (close_events hs rs) = []"
  by (induction hs rs rule: list_induct2') (simp_all add: close_events_def)

lemma open_results_append [simp]:
  "open_results (evs @ evs') = open_results evs @ open_results evs'"
  by (simp add: open_results_def)

lemma open_results_Cons [simp]:
  "open_results (ev # evs) =
     (case ev of DlOpen path mode h \<Rightarrow> [h] | _ \<Rightarrow> []) @ open_results evs"
  by (cases ev) (simp_all add: open_results_def)

lemma open_results_Nil [simp]: "open_results [] = []"
  by (simp add: open_results_def)

lemma open_results_open_events [simp]:
  "length hs \<le> length names \<Longrightarrow> open_results (open_events pre mode names hs) = hs"
proof (induction names hs rule: list_induct2')
  case (4 x xs y ys)
  then show ?case by (simp add: open_events_def)
qed (simp_all add: open_events_def)

lemma open_results_close_events [simp]: "open_results (close_events hs rs) = []"
  by (simp add: open_results_def)

lemma member_spec_multiple_open:
  assumes "member_spec path = Some opening"
  shows "last path = CHR '')''" and "opening + 1 < length path"
  using assms member_spec_Some[of path "opening"] by auto

lemma ctypes_dlopen_multiple:
  assumes "member_spec path = Some opening"
      and "strchr (drop opening path) (CHR '','') \<noteq> None"
  shows "ctypes_dlopen P (Ptr path) mode w
           = multiple_open P path (opening + 1) (mode OR RTLD_MEMBER P) w"
  using assms by (simp add: ctypes_dlopen_def)

text \<open>
  C1, as amended. In an open of several members, when a native open fails, the handles
  opened before it in the same attempt are each handed to the native close once, in the
  order they were opened, and what these closes return is ignored; the aggregate is
  freed and is no longer among the objects; the copy of the path is freed; and the open
  returns null. The failing open is the last native open of the attempt and may be the
  one of any member, the last included. The native calls of the log are the only ones
  made to the platform. No native handle of the attempt remains open afterwards exactly
  when every one of these native closes returned 0.
\<close>

theorem multiple_open_failure_unwinds:
  assumes "NUL \<notin> set path"
      and "member_spec path = Some opening"
      and "strchr (drop opening path) (CHR '','') \<noteq> None"
  shows "\<exists>r w'. ctypes_dlopen P (Ptr path) mode w = Some (r, w')
           \<and> (Null \<in> set (open_results (new_events w w')) \<longrightarrow>
                r = Null
                \<and> map_option snd (replay P (new_events w w') (errno w, linker w))
                    = Some (linker w')
                \<and> (\<exists>b n a hs rs.
                      new_events w w' =
                        [Malloc (strlen path + 1) (Some b), Malloc n (Some a)]
                        @ open_events (take (opening + 1) path) (mode OR RTLD_MEMBER P)
                            (member_names path opening) (hs @ [Null])
                        @ close_events hs rs @ [Free a, Free b]
                      \<and> Null \<notin> set hs
                      \<and> length hs < length (member_names path opening)
                      \<and> length rs = length hs
                      \<and> objects w' = (objects w)(a := None)
                      \<and> (still_open (new_events w w') [] = [] \<longleftrightarrow> (\<forall>r \<in> set rs. r = 0))))"
proof -
  note la = member_spec_multiple_open[OF assms(2)]
  let ?mode = "mode OR RTLD_MEMBER P"
  show ?thesis
    unfolding ctypes_dlopen_multiple[OF assms(2,3)] member_names_def
  proof (rule multiple_open_cases[OF assms(1) la, of P ?mode w], goal_cases)
    case (1 w')
    then show ?case by auto
  next
    case (2 b n w')
    then show ?case by auto
  next
    case (3 b n a hs rs w')
    have so: "still_open (new_events w w') [] = [] \<longleftrightarrow> (\<forall>r \<in> set rs. r = 0)"
      unfolding 3(2) by (rule still_open_unwind[OF 3(3) 3(4) 3(5)])
    have inner: "\<exists>b n a hs rs.
        new_events w w' =
          [Malloc (strlen path + 1) (Some b), Malloc n (Some a)]
          @ open_events (take (opening + 1) path) ?mode
              (split_members (butlast (drop (opening + 1) path))) (hs @ [Null])
          @ close_events hs rs @ [Free a, Free b]
        \<and> Null \<notin> set hs
        \<and> length hs < length (split_members (butlast (drop (opening + 1) path)))
        \<and> length rs = length hs
        \<and> objects w' = (objects w)(a := None)
        \<and> (still_open (new_events w w') [] = [] \<longleftrightarrow> (\<forall>r \<in> set rs. r = 0))"
      by (intro exI[of _ b] exI[of _ n] exI[of _ a] exI[of _ hs] exI[of _ rs] conjI
            3(2) 3(3) 3(4) 3(5) 3(6) so)
    show ?case
      by (intro exI[of _ Null] exI[of _ w'] conjI impI 3(1) refl 3(7) inner)
  next
    case (4 b n a hs w')
    from 4(4) have "length hs \<le> length (split_members (butlast (drop (opening + 1) path)))"
      by simp
    then have "open_results (new_events w w') = hs"
      unfolding 4(2) by simp
    with 4(1,3) show ?case by auto
  qed
qed

theorem multiple_open_failure_unwinds_witness:
  "NUL \<notin> set ''libc.a(shr.o,bad.o)''
   \<and> member_spec ''libc.a(shr.o,bad.o)'' = Some 6
   \<and> member_names ''libc.a(shr.o,bad.o)'' 6 = [''shr.o'', ''bad.o'']
   \<and> ctypes_dlopen demo (Ptr ''libc.a(shr.o,bad.o)'') 2 (fresh_world\<lparr>linker := 1\<rparr>)
       = Some (Null, fresh_world\<lparr>linker := 5,
           trace := [Malloc 20 (Some 11), Malloc 32 (Some 12),
                     DlOpen (Ptr ''libc.a(shr.o)'') 262146 (Ptr 103),
                     DlOpen (Ptr ''libc.a(bad.o)'') 262146 Null,
                     DlClose (Ptr 103) 0, Free 12, Free 11]\<rparr>)
   \<and> still_open [Malloc 20 (Some 11), Malloc 32 (Some 12),
                  DlOpen (Ptr ''libc.a(shr.o)'') 262146 (Ptr 103),
                  DlOpen (Ptr ''libc.a(bad.o)'') 262146 Null,
                  DlClose (Ptr 103) 0, Free 12, Free 11] [] = []"
  using multiple_open_failure_unwinds[of "''libc.a(shr.o,bad.o)''" 6 demo 2
          "fresh_world\<lparr>linker := 1\<rparr>"]
  by (simp add: member_spec_def strlen_def ctypes_dlopen_def member_names_def
        multiple_open_def malloc_def native_def demo_def fresh_world_def Let_def
        strncpy_def strcpy_def poke_def c_str_def NUL_def dlopen_def set_slot_def
        free_buf_def open_members.simps multiple_close_def dlclose_def free_def EINVAL_def)

text \<open>
  C1 as stated fails when a native close of the unwinding fails: the open of
  \<^verbatim>\<open>libc.a(x,bad.o,y)\<close> opens \<^verbatim>\<open>x\<close> as the object 102, fails to open \<^verbatim>\<open>bad.o\<close>, hands 102 to
  the native close, which returns 1, and returns null; the object 102 remains open.
\<close>

theorem multiple_open_failure_counterexample:
  "ctypes_dlopen demo (Ptr ''libc.a(x,bad.o,y)'') 2 fresh_world = Some (Null, unwound_world)
   \<and> open_results (new_events fresh_world unwound_world) = [Ptr 102, Null]
   \<and> still_open (new_events fresh_world unwound_world) [] = [Ptr 102]"
  by (simp add: member_spec_def strlen_def ctypes_dlopen_def unwound_world_def
        multiple_open_def malloc_def native_def demo_def fresh_world_def Let_def
        strncpy_def strcpy_def poke_def c_str_def NUL_def dlopen_def set_slot_def
        free_buf_def open_members.simps multiple_close_def dlclose_def free_def EINVAL_def
        new_events_def open_results_def native_opens_def)

lemma single_open_cases:
  obtains
    (no_wrapper) w' where
      "single_open P path mode w = (Null, w')"
      "new_events w w' = [Malloc (2 * sizeof_ptr P) None]"
  | (failed) a w' where
      "single_open P path mode w = (Null, w')"
      "new_events w w' = [Malloc (2 * sizeof_ptr P) (Some a), DlOpen path mode Null, Free a]"
  | (opened) a h w' where
      "single_open P path mode w = (Ptr a, w')"
      "h \<noteq> Null"
      "new_events w w' = [Malloc (2 * sizeof_ptr P) (Some a), DlOpen path mode h]"
      "objects w' = (objects w)(a \<mapsto> SingleObject h)"
proof -
  let ?n = "2 * sizeof_ptr P"
  obtain r e s where m: "malloc P ?n w =
      (r, w\<lparr>errno := e, linker := s, trace := trace w @ [Malloc ?n r]\<rparr>)"
    using malloc_effect[of P ?n w] by auto
  show thesis
  proof (cases r)
    case None
    let ?w1 = "w\<lparr>errno := e, linker := s, trace := trace w @ [Malloc ?n None]\<rparr>"
    have "single_open P path mode w = (Null, ?w1)" using m None by (simp add: single_open_def)
    moreover have "new_events w ?w1 = [Malloc ?n None]" by (simp add: new_events_def)
    ultimately show thesis using no_wrapper by blast
  next
    case (Some a)
    let ?w1 = "w\<lparr>errno := e, linker := s, trace := trace w @ [Malloc ?n (Some a)]\<rparr>"
    have m': "malloc P ?n w = (Some a, ?w1)" using m Some by simp
    obtain h e' s' where d: "dlopen P path mode ?w1 =
        (h, ?w1\<lparr>errno := e', linker := s', trace := trace ?w1 @ [DlOpen path mode h]\<rparr>)"
      using dlopen_effect[of P path mode ?w1] by auto
    let ?w2 = "?w1\<lparr>errno := e', linker := s', trace := trace ?w1 @ [DlOpen path mode h]\<rparr>"
    show thesis
    proof (cases "h = Null")
      case True
      have "single_open P path mode w = (Null, free P a ?w2)"
        using m' d True by (simp add: single_open_def)
      moreover have "new_events w (free P a ?w2)
                       = [Malloc ?n (Some a), DlOpen path mode Null, Free a]"
        using True by (simp add: new_events_def free_def)
      ultimately show thesis using failed by blast
    next
      case False
      let ?w3 = "?w2\<lparr>objects := (objects ?w2)(a \<mapsto> SingleObject h)\<rparr>"
      have "single_open P path mode w = (Ptr a, ?w3)"
        using m' d False by (simp add: single_open_def)
      moreover have "new_events w ?w3 = [Malloc ?n (Some a), DlOpen path mode h]"
        by (simp add: new_events_def)
      moreover have "objects ?w3 = (objects w)(a \<mapsto> SingleObject h)" by simp
      ultimately show thesis using opened False by blast
    qed
  qed
qed

lemma single_member_names:
  assumes "member_spec path = Some opening"
      and "strchr (drop opening path) (CHR '','') = None"
  shows "\<exists>body. member_names path opening = [body] \<and> member_path path opening body = path"
proof -
  note la = member_spec_multiple_open[OF assms(1)]
  let ?rest = "drop (Suc opening) path"
  from la have ne: "?rest \<noteq> []" by simp
  have "last ?rest = CHR '')''" using la by simp
  with ne obtain body where rest: "?rest = body @ '')''"
    by (metis append_butlast_last_id)
  from assms(2) have "CHR '','' \<notin> set (drop opening path)" by (simp add: strchr_None)
  moreover have "?rest = drop 1 (drop opening path)" by simp
  then have "set ?rest \<subseteq> set (drop opening path)"
    using set_drop_subset[of 1 "drop opening path"] by simp
  moreover have "set body \<subseteq> set ?rest" by (auto simp: rest)
  ultimately have "CHR '','' \<notin> set body" by blast
  then have sp: "split_members body = [body]" by (rule split_members_no_comma)
  have "take (Suc opening) path @ ?rest = path" by (rule append_take_drop_id)
  then have tp: "take (Suc opening) path @ body @ '')'' = path" by (simp only: rest)
  have "member_names path opening = [body]"
    by (simp add: member_names_def rest sp)
  moreover have "member_path path opening body = path"
    using tp by (simp add: member_path_def)
  ultimately show ?thesis by blast
qed

text \<open>
  C2, as amended. For a path taken as a member specification with members
  \<open>m1, ..., mN\<close>, the native opens of one call are made in list order, member by
  member, each with the path whose parentheses hold that one member and with the
  member-mode flag ORed into the caller's mode. They stop at the first one that fails:
  all N are made when the open succeeds; fewer than N only when an allocation failed
  (then none) or the last one made returned null. For \<^verbatim>\<open>libc.a(shr.o,shr_64.o)\<close> the two
  paths are \<^verbatim>\<open>libc.a(shr.o)\<close> and \<^verbatim>\<open>libc.a(shr_64.o)\<close>.
\<close>

theorem member_opens_in_order:
  assumes "NUL \<notin> set path" and "member_spec path = Some opening"
  shows "(\<exists>r w' hs. ctypes_dlopen P (Ptr path) mode w = Some (r, w')
           \<and> length hs \<le> length (member_names path opening)
           \<and> native_opens (new_events w w')
               = map (\<lambda>(m, h). (Ptr (member_path path opening m), mode OR RTLD_MEMBER P, h))
                   (zip (member_names path opening) hs)
           \<and> Null \<notin> set (butlast hs)
           \<and> (r \<noteq> Null \<longrightarrow> length hs = length (member_names path opening) \<and> Null \<notin> set hs)
           \<and> (length hs < length (member_names path opening) \<longrightarrow>
                 r = Null
                 \<and> (if hs = [] then \<exists>n. Malloc n None \<in> set (new_events w w')
                    else last hs = Null)))
         \<and> (path = ''libc.a(shr.o,shr_64.o)'' \<longrightarrow>
               map (member_path path opening) (member_names path opening)
                 = [''libc.a(shr.o)'', ''libc.a(shr_64.o)''])"
proof -
  let ?mode = "mode OR RTLD_MEMBER P"
  let ?names = "member_names path opening"
  let ?call = "\<lambda>(m, h). (Ptr (member_path path opening m), ?mode, h)"
  have scenario: "path = ''libc.a(shr.o,shr_64.o)'' \<longrightarrow>
                 map (member_path path opening) ?names
                   = [''libc.a(shr.o)'', ''libc.a(shr_64.o)'']"
  proof
    assume p: "path = ''libc.a(shr.o,shr_64.o)''"
    with assms(2) have "opening = 6" by (simp add: member_spec_def strlen_def)
    with p show "map (member_path path opening) ?names
                   = [''libc.a(shr.o)'', ''libc.a(shr_64.o)'']"
      by (simp add: member_names_def member_path_def)
  qed
  have "\<exists>r w' hs. ctypes_dlopen P (Ptr path) mode w = Some (r, w')
           \<and> length hs \<le> length ?names
           \<and> native_opens (new_events w w') = map ?call (zip ?names hs)
           \<and> Null \<notin> set (butlast hs)
           \<and> (r \<noteq> Null \<longrightarrow> length hs = length ?names \<and> Null \<notin> set hs)
           \<and> (length hs < length ?names \<longrightarrow>
                 r = Null
                 \<and> (if hs = [] then \<exists>n. Malloc n None \<in> set (new_events w w')
                    else last hs = Null))"
  proof (cases "strchr (drop opening path) (CHR '','')")
    case None
    from single_member_names[OF assms(2) None] obtain body where
      b: "?names = [body]" "member_path path opening body = path" by blast
    have c: "ctypes_dlopen P (Ptr path) mode w = Some (single_open P (Ptr path) ?mode w)"
      using assms(2) None by (simp add: ctypes_dlopen_def)
    show ?thesis
    proof (rule single_open_cases[of P "Ptr path" ?mode w], goal_cases)
      case (1 w')
      show ?case
        by (rule exI[of _ Null], rule exI[of _ w'], rule exI[of _ "[]"])
           (use 1 c b in simp)
    next
      case (2 a w')
      show ?case
        by (rule exI[of _ Null], rule exI[of _ w'], rule exI[of _ "[Null]"])
           (use 2 c b in simp)
    next
      case (3 a h w')
      show ?case
        by (rule exI[of _ "Ptr a"], rule exI[of _ w'], rule exI[of _ "[h]"])
           (use 3 c b in simp)
    qed
  next
    case (Some j)
    then have comma: "strchr (drop opening path) (CHR '','') \<noteq> None" by simp
    note la = member_spec_multiple_open[OF assms(2)]
    show ?thesis
      unfolding ctypes_dlopen_multiple[OF assms(2) comma]
    proof (rule multiple_open_cases[OF assms(1) la, of P ?mode w], goal_cases)
      case (1 w')
      show ?case
        by (rule exI[of _ Null], rule exI[of _ w'], rule exI[of _ "[]"])
           (use 1 in simp)
    next
      case (2 b n w')
      show ?case
        by (rule exI[of _ Null], rule exI[of _ w'], rule exI[of _ "[]"])
           (use 2 in simp)
    next
      case (3 b n a hs rs w')
      show ?case
        by (rule exI[of _ Null], rule exI[of _ w'], rule exI[of _ "hs @ [Null]"])
           (use 3 in \<open>simp add: member_names_def member_path_def\<close>)
    next
      case (4 b n a hs w')
      have nb: "Null \<notin> set (butlast hs)" using 4(3) by (meson in_set_butlastD)
      show ?case
        by (rule exI[of _ "Ptr a"], rule exI[of _ w'], rule exI[of _ hs])
           (use 4 nb in \<open>simp add: member_names_def member_path_def\<close>)
    qed
  qed
  then show ?thesis using scenario by (rule conjI)
qed

theorem member_opens_in_order_witness:
  "NUL \<notin> set ''libc.a(shr.o,shr_64.o)''
   \<and> member_spec ''libc.a(shr.o,shr_64.o)'' = Some 6
   \<and> ctypes_dlopen demo (Ptr ''libc.a(shr.o,shr_64.o)'') 2 fresh_world
       = Some (Ptr 11, opened_world)
   \<and> native_opens (new_events fresh_world opened_world)
       = [(Ptr ''libc.a(shr.o)'', 2 OR RTLD_MEMBER demo, Ptr 102),
          (Ptr ''libc.a(shr_64.o)'', 2 OR RTLD_MEMBER demo, Ptr 103)]"
  using member_opens_in_order[of "''libc.a(shr.o,shr_64.o)''" 6 demo 2 fresh_world]
  by (simp add: member_spec_def strlen_def ctypes_dlopen_def
        multiple_open_def malloc_def native_def demo_def fresh_world_def Let_def
        strncpy_def strcpy_def poke_def c_str_def NUL_def dlopen_def set_slot_def
        free_buf_def open_members.simps opened_world_def new_events_def)

text \<open>
  C2 as stated fails when a member before the last cannot be opened: of the two members
  of \<^verbatim>\<open>libc.a(bad.o,shr.o)\<close> only the first reaches the native open.
\<close>

theorem member_opens_counterexample:
  "member_names ''libc.a(bad.o,shr.o)'' 6 = [''bad.o'', ''shr.o'']
   \<and> ctypes_dlopen demo (Ptr ''libc.a(bad.o,shr.o)'') 2 fresh_world
       = Some (Null, fresh_world\<lparr>linker := 3,
           trace := [Malloc 20 (Some 10), Malloc 32 (Some 11),
                     DlOpen (Ptr ''libc.a(bad.o)'') 262146 Null, Free 11, Free 10]\<rparr>)"
  by (simp add: member_names_def member_spec_def strlen_def ctypes_dlopen_def
        multiple_open_def malloc_def native_def demo_def fresh_world_def Let_def
        strncpy_def strcpy_def poke_def c_str_def NUL_def dlopen_def set_slot_def
        free_buf_def open_members.simps multiple_close_def free_def)

section \<open>The aggregate after a successful open\<close>

text \<open>
  C9, as amended. After a successful open of N members the aggregate holds, in open
  order, the N non-null handles that the native opens returned, followed by a null
  handle, and nothing else. A close walks exactly these N handles. A lookup walks the
  same slots in the same order and never reads past the null handle; it reaches all N
  unless it ends early at a member whose lookup yields an address or leaves errno set.
\<close>

theorem aggregate_shape:
  assumes "NUL \<notin> set path"
      and "member_spec path = Some opening"
      and "strchr (drop opening path) (CHR '','') \<noteq> None"
      and "ctypes_dlopen P (Ptr path) mode w = Some (r, w')"
      and "r \<noteq> Null"
  shows "\<exists>a hs. r = Ptr a
           \<and> hs = open_results (new_events w w')
           \<and> length hs = length (member_names path opening)
           \<and> Null \<notin> set hs
           \<and> objects w' a = Some (MultipleObjects (map Some hs @ [Some Null]))
           \<and> (\<forall>Q. \<exists>ret w'' rs. ctypes_dlclose Q r w' = Some (ret, w'')
                  \<and> length rs = length hs
                  \<and> new_events w' w'' = close_events hs rs @ [Free a])
           \<and> (\<forall>Q symbol. \<exists>x w'' rs. ctypes_dlsym Q r symbol w' = Some (x, w'')
                  \<and> length rs \<le> length hs
                  \<and> new_events w' w'' = sym_events symbol hs rs
                  \<and> (length rs < length hs \<longrightarrow> rs \<noteq> [] \<and> last rs \<noteq> (Null, 0)))"
proof -
  note la = member_spec_multiple_open[OF assms(2)]
  let ?mode = "mode OR RTLD_MEMBER P"
  from assms(4) have mo: "multiple_open P path (opening + 1) ?mode w = Some (r, w')"
    unfolding ctypes_dlopen_multiple[OF assms(2,3)] .
  show ?thesis
  proof (rule multiple_open_cases[OF assms(1) la, of P ?mode w], goal_cases)
    case (1 v)
    with mo assms(5) show ?case by simp
  next
    case (2 b n v)
    with mo assms(5) show ?case by simp
  next
    case (3 b n a hs rs v)
    with mo assms(5) show ?case by simp
  next
    case (4 b n a hs v)
    from 4(1) mo have r: "r = Ptr a" and v: "v = w'" by simp_all
    from 4(4) have le: "length hs \<le> length (split_members (butlast (drop (opening + 1) path)))"
      by simp
    have res: "open_results (new_events w w') = hs"
      using 4(2) le unfolding v by simp
    have ob: "objects w' a = Some (MultipleObjects (map Some hs @ [Some Null]))"
      using 4(5) unfolding v by simp
    have mh: "multiple_handle w' r hs"
      using r ob 4(3) by (simp add: multiple_handle_def)
    have cl: "\<exists>ret w'' rs. ctypes_dlclose Q r w' = Some (ret, w'')
                  \<and> length rs = length hs
                  \<and> new_events w' w'' = close_events hs rs @ [Free a]" for Q
      using aggregate_close_run[OF mh, of Q] r by auto
    have sy: "\<exists>x w'' rs. ctypes_dlsym Q r symbol w' = Some (x, w'')
                  \<and> length rs \<le> length hs
                  \<and> new_events w' w'' = sym_events symbol hs rs
                  \<and> (length rs < length hs \<longrightarrow> rs \<noteq> [] \<and> last rs \<noteq> (Null, 0))" for Q symbol
      using aggregate_sym_run[OF mh, of Q symbol] .
    show ?case
      apply (rule exI[of _ a], rule exI[of _ hs])
      using r res 4(3,4) ob cl sy by (simp add: member_names_def)
  qed
qed

theorem aggregate_shape_witness:
  "NUL \<notin> set ''libc.a(shr.o,shr_64.o)''
   \<and> member_spec ''libc.a(shr.o,shr_64.o)'' = Some 6
   \<and> ctypes_dlopen demo (Ptr ''libc.a(shr.o,shr_64.o)'') 2 fresh_world
       = Some (Ptr 11, opened_world)
   \<and> open_results (new_events fresh_world opened_world) = [Ptr 102, Ptr 103]
   \<and> objects opened_world 11
       = Some (MultipleObjects [Some (Ptr 102), Some (Ptr 103), Some Null])"
proof -
  let ?p = "''libc.a(shr.o,shr_64.o)''"
  have p1: "NUL \<notin> set ?p" by (simp add: NUL_def)
  have p2: "member_spec ?p = Some 6" by (simp add: member_spec_def strlen_def)
  have p3: "strchr (drop 6 ?p) (CHR '','') \<noteq> None" by simp
  have p4: "ctypes_dlopen demo (Ptr ?p) 2 fresh_world = Some (Ptr 11, opened_world)"
    by (simp add: member_spec_def strlen_def ctypes_dlopen_def
        multiple_open_def malloc_def native_def demo_def fresh_world_def Let_def
        strncpy_def strcpy_def poke_def c_str_def NUL_def dlopen_def set_slot_def
        free_buf_def open_members.simps opened_world_def)
  have p5: "(Ptr 11 :: handle) \<noteq> Null" by simp
  from aggregate_shape[OF p1 p2 p3 p4 p5] obtain a hs where
    t: "(Ptr 11 :: handle) = Ptr a" "hs = open_results (new_events fresh_world opened_world)"
       "objects opened_world a = Some (MultipleObjects (map Some hs @ [Some Null]))"
    by blast
  have "open_results (new_events fresh_world opened_world) = [Ptr 102, Ptr 103]"
    by (simp add: new_events_def fresh_world_def opened_world_def)
  with t p1 p2 p4 show ?thesis by simp
qed



text \<open>
  C9 as stated fails for the lookup: of the two members opened here, a lookup of
  \<^verbatim>\<open>u\<close> visits only the first, which resolves it.
\<close>

theorem aggregate_shape_counterexample:
  "ctypes_dlopen demo (Ptr ''libc.a(shr.o,shr_64.o)'') 2 fresh_world
     = Some (Ptr 11, opened_world)
   \<and> ctypes_dlsym demo (Ptr 11) ''u'' opened_world
     = Some (Ptr 8, opened_world\<lparr>trace := trace opened_world
                                       @ [DlSym (Ptr 102) ''u'' (Ptr 8) 0]\<rparr>)"
proof
  show "ctypes_dlopen demo (Ptr ''libc.a(shr.o,shr_64.o)'') 2 fresh_world
     = Some (Ptr 11, opened_world)"
    by (simp add: member_spec_def strlen_def ctypes_dlopen_def
        multiple_open_def malloc_def native_def demo_def fresh_world_def Let_def
        strncpy_def strcpy_def poke_def c_str_def NUL_def dlopen_def set_slot_def
        free_buf_def open_members.simps opened_world_def)
  show "ctypes_dlsym demo (Ptr 11) ''u'' opened_world
     = Some (Ptr 8, opened_world\<lparr>trace := trace opened_world
                                       @ [DlSym (Ptr 102) ''u'' (Ptr 8) 0]\<rparr>)"
    by (simp add: ctypes_dlsym_def multiple_sym_def dlsym_def native_def demo_def
          opened_world_def)
qed


end
